theory Spec2Isabelle
  imports Main "HOL-Library.Sublist" "HOL-Library.Multiset"
begin

section \<open>HuffZip: a Huffman coding file compressor (main.cpp)\<close>

text \<open>
  The program reads a whole file into a \<^verbatim>\<open>std::string\<close>, counts its bytes, builds a
  Huffman tree with a \<^verbatim>\<open>std::priority_queue\<close>, derives the codes by a depth-first walk,
  and writes a text header (the frequency table) followed by the packed bits.
  Decompression parses the header, rebuilds the tree and walks it bit by bit.

  Conventions of the embedding:
  \<^item> a C++ \<^verbatim>\<open>char\<close> is a \<^typ>\<open>char\<close> (eight bits), a \<^verbatim>\<open>std::string\<close> a \<^typ>\<open>string\<close>,
    a file the string of its bytes;
  \<^item> \<^verbatim>\<open>char\<close> is signed, as with g++ on x86 (the build the README gives): it orders the
    keys of \<^verbatim>\<open>std::map<char, int>\<close> and is what \<^verbatim>\<open>static_cast<int>\<close> prints;
  \<^item> \<^verbatim>\<open>int\<close> is a 32-bit signed integer: an \<^typ>\<open>int\<close> within range, with the
    wrap-around of the machine written out (\<open>int32\<close>) wherever the source adds or
    increments; signed overflow is undefined in C++, and wrapping is what g++ on x86
    compiles it to;
  \<^item> \<^verbatim>\<open>std::map<char, int>\<close> is iterated, so it is an association list kept sorted by
    key; \<^verbatim>\<open>std::map<char, string>\<close> is only looked up, so it is a map;
  \<^item> a \<^verbatim>\<open>HuffmanNode*\<close> that may be null is a \<^typ>\<open>'a option\<close>; dereferencing null,
    \<^verbatim>\<open>top()\<close> on an empty queue and reading a variable that was never assigned are
    errors of the model;
  \<^item> an input stream is the rest of its bytes while it is good, and \<^const>\<open>None\<close> once
    \<^verbatim>\<open>failbit\<close> or \<^verbatim>\<open>eofbit\<close> is set: the source never clears or tests them, and every
    later read then does nothing;
  \<^item> a file that cannot be opened for reading is \<^const>\<open>None\<close>; the output file can
    always be written, and the messages on the console are left out but for the error
    a function ends in.
\<close>

subsection \<open>Errors\<close>

datatype error =
    CannotOpenInput     \<comment> \<open>"Error: Cannot open input file!", then return\<close>
  | FileIsEmpty         \<comment> \<open>"Error: File is empty!", then return\<close>
  | EmptyQueueTop       \<comment> \<open>\<^verbatim>\<open>minHeap.top()\<close> on an empty queue (undefined behaviour)\<close>
  | NullDereference     \<comment> \<open>\<^verbatim>\<open>current->left\<close> with \<^verbatim>\<open>current == nullptr\<close> (undefined behaviour)\<close>
  | UninitializedRead   \<comment> \<open>a local \<^verbatim>\<open>int\<close> is read that no \<^verbatim>\<open>operator>>\<close> has assigned (undefined behaviour)\<close>
  | InvalidBitsetChar   \<comment> \<open>\<^verbatim>\<open>std::bitset\<close> built from a string with a character other than 0 and 1\<close>

subsection \<open>Machine integers\<close>

text \<open>The value an \<^verbatim>\<open>int\<close> holds after a sum that the 32 bits wrap around.\<close>

definition int32 :: "int \<Rightarrow> int" where
  "int32 x = (x + 2147483648) mod 4294967296 - 2147483648"

subsection \<open>The tree node\<close>

datatype HuffmanNode =
  HuffmanNode (data: char) (freq: int) (left: "HuffmanNode option") (right: "HuffmanNode option")

text \<open>\<^verbatim>\<open>NodeComparator\<close>: the queue's ordering, which makes it a min-heap on \<^verbatim>\<open>freq\<close>.\<close>

definition NodeComparator :: "HuffmanNode \<Rightarrow> HuffmanNode \<Rightarrow> bool" where
  "NodeComparator l r = (freq l > freq r)"

subsection \<open>The frequency table\<close>

text \<open>\<^verbatim>\<open>static_cast<int>(c)\<close> for a signed \<^verbatim>\<open>char\<close>; the keys of the table are ordered by it.\<close>

definition char_to_int :: "char \<Rightarrow> int" where
  "char_to_int c = (let n = of_char c in if n < 128 then n else n - 256)"

text \<open>\<^verbatim>\<open>freqTable[c]++\<close>: the entry is created with count 0 when it is missing.\<close>

fun increment :: "char \<Rightarrow> (char \<times> int) list \<Rightarrow> (char \<times> int) list" where
  "increment c [] = [(c, 1)]"
| "increment c ((k, v) # m) =
     (if c = k then (k, int32 (v + 1)) # m
      else if char_to_int c < char_to_int k then (c, 1) # (k, v) # m
      else (k, v) # increment c m)"

definition buildFrequencyTable :: "string \<Rightarrow> (char \<times> int) list" where
  "buildFrequencyTable content = foldl (\<lambda>freqTable c. increment c freqTable) [] content"

subsection \<open>The priority queue\<close>

text \<open>
  \<^verbatim>\<open>std::priority_queue\<close> over a \<^verbatim>\<open>std::vector\<close>: \<^verbatim>\<open>push\<close> is \<^verbatim>\<open>push_back\<close> then
  \<^verbatim>\<open>std::push_heap\<close>, \<^verbatim>\<open>pop\<close> is \<^verbatim>\<open>std::pop_heap\<close> then \<^verbatim>\<open>pop_back\<close>, \<^verbatim>\<open>top\<close> is
  \<^verbatim>\<open>front\<close>. The two heap algorithms follow GNU libstdc++ (\<^verbatim>\<open>bits/stl_heap.h\<close>), the
  library of the README's g++ build; they decide how ties between equal frequencies are
  broken. Indices are naturals: the library's signed differences are never negative
  where it is called with a non-empty range. The properties proved below use of the
  queue only that \<^verbatim>\<open>push\<close> and \<^verbatim>\<open>pop\<close> keep its elements, so they hold however ties are
  broken.
\<close>

function push_heap_value :: "HuffmanNode list \<Rightarrow> nat \<Rightarrow> nat \<Rightarrow> HuffmanNode \<Rightarrow> HuffmanNode list" where
  "push_heap_value first holeIndex topIndex val =
     (let parent = (holeIndex - 1) div 2 in
      if holeIndex > topIndex \<and> NodeComparator (first ! parent) val
      then push_heap_value (first[holeIndex := first ! parent]) parent topIndex val
      else first[holeIndex := val])"
  by pat_completeness auto
termination
  by (relation "measure (\<lambda>(first, holeIndex, topIndex, val). holeIndex)") auto

definition push_heap :: "HuffmanNode list \<Rightarrow> HuffmanNode list" where
  "push_heap v = (if v = [] then v else push_heap_value v (length v - 1) 0 (last v))"

function adjust_heap_loop :: "HuffmanNode list \<Rightarrow> nat \<Rightarrow> nat \<Rightarrow> nat \<Rightarrow> HuffmanNode list \<times> nat \<times> nat" where
  "adjust_heap_loop first holeIndex secondChild len =
     (if secondChild < (len - 1) div 2
      then let secondChild = 2 * (secondChild + 1);
               secondChild = (if NodeComparator (first ! secondChild) (first ! (secondChild - 1))
                              then secondChild - 1 else secondChild)
           in adjust_heap_loop (first[holeIndex := first ! secondChild]) secondChild secondChild len
      else (first, holeIndex, secondChild))"
  by pat_completeness auto
termination
  by (relation "measure (\<lambda>(first, holeIndex, secondChild, len). len - secondChild)") auto

definition adjust_heap :: "HuffmanNode list \<Rightarrow> nat \<Rightarrow> nat \<Rightarrow> HuffmanNode \<Rightarrow> HuffmanNode list" where
  "adjust_heap first holeIndex len val =
     (let topIndex = holeIndex;
          (first, holeIndex, secondChild) = adjust_heap_loop first holeIndex holeIndex len;
          (first, holeIndex) =
             (if len mod 2 = 0 \<and> secondChild = (len - 2) div 2
              then let secondChild = 2 * (secondChild + 1)
                   in (first[holeIndex := first ! (secondChild - 1)], secondChild - 1)
              else (first, holeIndex))
      in push_heap_value first holeIndex topIndex val)"

definition pop_heap :: "HuffmanNode list \<Rightarrow> HuffmanNode list" where
  "pop_heap v =
     (if length v > 1
      then let result = length v - 1; val = v ! result
           in adjust_heap (v[result := v ! 0]) 0 result val
      else v)"

definition pq_push :: "HuffmanNode \<Rightarrow> HuffmanNode list \<Rightarrow> HuffmanNode list" where
  "pq_push x c = push_heap (c @ [x])"

definition pq_pop :: "HuffmanNode list \<Rightarrow> HuffmanNode list" where
  "pq_pop c = butlast (pop_heap c)"

definition pq_top :: "HuffmanNode list \<Rightarrow> error + HuffmanNode" where
  "pq_top c = (case c of [] \<Rightarrow> Inl EmptyQueueTop | x # _ \<Rightarrow> Inr x)"


declare push_heap_value.simps [simp del]
declare adjust_heap_loop.simps [simp del]

lemma length_push_heap_value [simp]:
  "length (push_heap_value first holeIndex topIndex val) = length first"
proof (induction first holeIndex topIndex val rule: push_heap_value.induct)
  case (1 first holeIndex topIndex val)
  show ?case
    using 1 by (subst push_heap_value.simps) (simp add: Let_def)
qed

lemma length_adjust_heap_loop [simp]:
  "length (fst (adjust_heap_loop first holeIndex secondChild len)) = length first"
proof (induction first holeIndex secondChild len rule: adjust_heap_loop.induct)
  case (1 first holeIndex secondChild len)
  show ?case
    using 1 by (subst adjust_heap_loop.simps) (simp add: Let_def)
qed

lemma length_adjust_heap [simp]: "length (adjust_heap first holeIndex len val) = length first"
proof -
  obtain f h s where loop: "adjust_heap_loop first holeIndex holeIndex len = (f, h, s)"
    by (cases "adjust_heap_loop first holeIndex holeIndex len") auto
  have "length f = length first"
    using length_adjust_heap_loop [of first holeIndex holeIndex len] loop by simp
  then show ?thesis
    by (simp add: adjust_heap_def loop Let_def)
qed

lemma length_pq_push [simp]: "length (pq_push x c) = Suc (length c)"
  by (simp add: pq_push_def push_heap_def)

lemma length_pq_pop [simp]: "length (pq_pop c) = length c - 1"
  by (simp add: pq_pop_def pop_heap_def Let_def)

subsection \<open>Building the tree\<close>

text \<open>
  The \<^verbatim>\<open>while (minHeap.size() > 1)\<close> loop of \<^verbatim>\<open>buildHuffmanTree\<close>. Both calls of
  \<^verbatim>\<open>top()\<close> see a non-empty queue there, so they are \<^const>\<open>hd\<close>.
\<close>

function buildHuffmanTree_loop :: "HuffmanNode list \<Rightarrow> HuffmanNode list" where
  "buildHuffmanTree_loop minHeap =
     (if length minHeap > 1
      then let left = hd minHeap; minHeap = pq_pop minHeap;
               right = hd minHeap; minHeap = pq_pop minHeap;
               internalNode = HuffmanNode (CHR 0x00) (int32 (freq left + freq right))
                                (Some left) (Some right)
           in buildHuffmanTree_loop (pq_push internalNode minHeap)
      else minHeap)"
  by pat_completeness auto
termination
  by (relation "measure length") auto

declare buildHuffmanTree_loop.simps [simp del]

definition leaves_heap :: "(char \<times> int) list \<Rightarrow> HuffmanNode list" where
  "leaves_heap freqTable =
     foldl (\<lambda>minHeap (c, f). pq_push (HuffmanNode c f None None) minHeap) [] freqTable"

definition buildHuffmanTree :: "(char \<times> int) list \<Rightarrow> error + HuffmanNode" where
  "buildHuffmanTree freqTable = pq_top (buildHuffmanTree_loop (leaves_heap freqTable))"

subsection \<open>Code assignment\<close>

text \<open>
  \<^verbatim>\<open>generateHuffmanCodes\<close>: the map is passed by reference in the source and returned
  here. A node gets a code when its \<^verbatim>\<open>data\<close> is not the zero byte, leaf or not.
\<close>

fun generateHuffmanCodes :: "HuffmanNode option \<Rightarrow> string \<Rightarrow> (char \<rightharpoonup> string) \<Rightarrow> (char \<rightharpoonup> string)" where
  "generateHuffmanCodes None code huffmanCodes = huffmanCodes"
| "generateHuffmanCodes (Some (HuffmanNode d f l r)) code huffmanCodes =
     (let huffmanCodes = (if d \<noteq> CHR 0x00 then huffmanCodes(d \<mapsto> code) else huffmanCodes);
          huffmanCodes = generateHuffmanCodes l (code @ ''0'') huffmanCodes
      in generateHuffmanCodes r (code @ ''1'') huffmanCodes)"


subsection \<open>Compression\<close>

text \<open>\<^verbatim>\<open>huffmanCodes[c]\<close>: a missing key is inserted with the empty string.\<close>

definition subscript :: "(char \<rightharpoonup> string) \<Rightarrow> char \<Rightarrow> string \<times> (char \<rightharpoonup> string)" where
  "subscript huffmanCodes c =
     (case huffmanCodes c of
        None \<Rightarrow> ([], huffmanCodes(c \<mapsto> []))
      | Some code \<Rightarrow> (code, huffmanCodes))"

text \<open>The loop \<^verbatim>\<open>for (char c : content) encoded += huffmanCodes[c]\<close>.\<close>

fun encode_loop :: "string \<Rightarrow> (char \<rightharpoonup> string) \<Rightarrow> string \<Rightarrow> string" where
  "encode_loop [] huffmanCodes encoded = encoded"
| "encode_loop (c # content) huffmanCodes encoded =
     (let (code, huffmanCodes) = subscript huffmanCodes c
      in encode_loop content huffmanCodes (encoded @ code))"

definition add_padding :: "string \<Rightarrow> string" where
  "add_padding encoded =
     (let padding = 8 - int (length encoded mod 8)
      in if padding \<noteq> 8 then encoded @ replicate (nat padding) (CHR ''0'') else encoded)"

text \<open>
  \<^verbatim>\<open>bitset<8> bits(str)\<close> followed by \<^verbatim>\<open>to_ulong()\<close>: at most eight characters are
  read, the first one is the most significant bit, and a character other than 0 and 1
  throws \<^verbatim>\<open>std::invalid_argument\<close>.
\<close>

definition bitset8_of_string :: "string \<Rightarrow> error + nat" where
  "bitset8_of_string str =
     (let str = take 8 str
      in if list_all (\<lambda>ch. ch = CHR ''0'' \<or> ch = CHR ''1'') str
         then Inr (foldl (\<lambda>n ch. 2 * n + (if ch = CHR ''1'' then 1 else 0)) 0 str)
         else Inl InvalidBitsetChar)"

text \<open>The loop \<^verbatim>\<open>for (size_t i = 0; i < encoded.length(); i += 8)\<close> that writes the bytes.\<close>

function write_compressed :: "string \<Rightarrow> nat \<Rightarrow> string \<Rightarrow> error + string" where
  "write_compressed encoded i out =
     (if i < length encoded
      then (case bitset8_of_string (take 8 (drop i encoded)) of
              Inl e \<Rightarrow> Inl e
            | Inr bits \<Rightarrow> write_compressed encoded (i + 8) (out @ [char_of bits]))
      else Inr out)"
  by pat_completeness auto
termination
  by (relation "measure (\<lambda>(encoded, i, out). length encoded - i)") auto

declare write_compressed.simps [simp del]

text \<open>\<^verbatim>\<open>operator<<\<close> for \<^verbatim>\<open>size_t\<close> and \<^verbatim>\<open>int\<close>: decimal digits, a minus sign when negative.\<close>

function show_nat :: "nat \<Rightarrow> string" where
  "show_nat n = (if n < 10 then [char_of (48 + n)] else show_nat (n div 10) @ [char_of (48 + n mod 10)])"
  by pat_completeness auto
termination
  by (relation "measure id") auto

declare show_nat.simps [simp del]

definition show_int :: "int \<Rightarrow> string" where
  "show_int i = (if i < 0 then CHR ''-'' # show_nat (nat (- i)) else show_nat (nat i))"

definition write_header :: "(char \<times> int) list \<Rightarrow> string" where
  "write_header freqTable =
     show_nat (length freqTable) @ [CHR 0x0A] @
     concat (map (\<lambda>(c, f). show_int (char_to_int c) @ [CHR 0x20] @ show_int f @ [CHR 0x0A]) freqTable)"

text \<open>
  \<^verbatim>\<open>compressFile\<close>, from the content of the input file (\<^const>\<open>None\<close> when it cannot be
  opened) to the content of the output file. The two early returns come before the
  output stream is opened, so they leave no output file; no other error is reached on a
  non-empty input (lemma \<open>compressFile_payload\<close>). The size report on the console is
  left out.
\<close>

definition compressFile :: "string option \<Rightarrow> error + string" where
  "compressFile inFile =
     (case inFile of
        None \<Rightarrow> Inl CannotOpenInput
      | Some content \<Rightarrow>
          if content = [] then Inl FileIsEmpty
          else
            (let freqTable = buildFrequencyTable content
             in (case buildHuffmanTree freqTable of
                   Inl e \<Rightarrow> Inl e
                 | Inr huffmanTree \<Rightarrow>
                     (let huffmanCodes = generateHuffmanCodes (Some huffmanTree) [] Map.empty;
                          header = write_header freqTable;
                          encoded = encode_loop content huffmanCodes [];
                          encoded = add_padding encoded
                      in (case write_compressed encoded 0 [] of
                            Inl e \<Rightarrow> Inl e
                          | Inr payload \<Rightarrow> Inr (header @ payload))))))"

subsection \<open>Decompression\<close>

text \<open>
  \<^verbatim>\<open>inFile >> n\<close> for an \<^verbatim>\<open>int\<close>, as C++11 defines it. The result is the value stored
  in \<open>n\<close> (\<^const>\<open>None\<close> when \<open>n\<close> is left as it was) and the stream afterwards.
  \<^item> On a stream that is not good nothing is read and nothing is stored.
  \<^item> White space is skipped; when that reaches the end of the input, nothing is stored
    and the stream fails.
  \<^item> An optional sign and the digits are read, up to the first character that is not a
    digit. With no digit, 0 is stored and the stream fails. A value outside \<^verbatim>\<open>int\<close>
    is stored as the nearest bound and the stream fails. Digits that run to the end of
    the input set \<^verbatim>\<open>eofbit\<close>: the value is stored and the stream is no longer good.
\<close>

definition isspace :: "char \<Rightarrow> bool" where
  "isspace c = (c \<in> set [CHR 0x20, CHR 0x09, CHR 0x0A, CHR 0x0B, CHR 0x0C, CHR 0x0D])"

definition isdigit :: "char \<Rightarrow> bool" where
  "isdigit c = (48 \<le> (of_char c :: nat) \<and> (of_char c :: nat) \<le> 57)"

fun read_digits :: "int \<Rightarrow> string \<Rightarrow> int \<times> string" where
  "read_digits acc [] = (acc, [])"
| "read_digits acc (c # cs) =
     (if isdigit c then read_digits (10 * acc + (of_char c - 48)) cs else (acc, c # cs))"

definition read_int :: "string option \<Rightarrow> int option \<times> string option" where
  "read_int inFile =
     (case inFile of
        None \<Rightarrow> (None, None)
      | Some s \<Rightarrow>
          (let s = dropWhile isspace s
           in if s = [] then (None, None)
              else
                (let (neg, s) = (if hd s = CHR ''-'' then (True, tl s)
                                 else if hd s = CHR ''+'' then (False, tl s) else (False, s))
                 in (case s of
                       [] \<Rightarrow> (Some 0, None)
                     | c # _ \<Rightarrow>
                         if \<not> isdigit c then (Some 0, None)
                         else
                           (let (n, rest) = read_digits 0 s;
                                v = (if neg then - n else n)
                            in if v < - 2147483648 then (Some (- 2147483648), None)
                               else if 2147483647 < v then (Some 2147483647, None)
                               else (Some v, if rest = [] then None else Some rest))))))"

text \<open>
  \<^verbatim>\<open>inFile.ignore()\<close> drops one character; at the end of the input it sets \<^verbatim>\<open>eofbit\<close>.
\<close>

definition ignore :: "string option \<Rightarrow> string option" where
  "ignore inFile =
     (case inFile of None \<Rightarrow> None | Some [] \<Rightarrow> None | Some (c # s) \<Rightarrow> Some s)"

text \<open>\<^verbatim>\<open>freqTable[k] = f\<close> on the sorted table.\<close>

fun assign :: "char \<Rightarrow> int \<Rightarrow> (char \<times> int) list \<Rightarrow> (char \<times> int) list" where
  "assign c f [] = [(c, f)]"
| "assign c f ((k, v) # m) =
     (if c = k then (k, f) # m
      else if char_to_int c < char_to_int k then (c, f) # (k, v) # m
      else (k, v) # assign c f m)"

text \<open>
  The loop \<^verbatim>\<open>for (int i = 0; i < tableSize; ++i)\<close> that reads the table.
  \<^verbatim>\<open>charValue\<close> and \<^verbatim>\<open>freq\<close> are declared in the body without a value, and the
  compiled loop keeps each in one place of the stack frame. A read that stores nothing
  thus leaves in the variable what an earlier round stored, and the assignment to the
  table uses that: the arguments \<open>charValue\<close> and \<open>f\<close> are what the two variables hold,
  \<^const>\<open>None\<close> as long as nothing was stored. Reading a variable in which nothing was
  ever stored is an error of the model.
\<close>

fun read_table :: "nat \<Rightarrow> string option \<Rightarrow> int option \<Rightarrow> int option \<Rightarrow> (char \<times> int) list \<Rightarrow> error + ((char \<times> int) list \<times> string option)" where
  "read_table 0 inFile charValue f freqTable = Inr (freqTable, inFile)"
| "read_table (Suc n) inFile charValue f freqTable =
     (let (v, inFile) = read_int inFile;
          charValue = (case v of None \<Rightarrow> charValue | Some v \<Rightarrow> Some v);
          (v, inFile) = read_int inFile;
          f = (case v of None \<Rightarrow> f | Some v \<Rightarrow> Some v);
          inFile = ignore inFile
      in (case charValue of
            None \<Rightarrow> Inl UninitializedRead
          | Some c \<Rightarrow>
              (case f of
                 None \<Rightarrow> Inl UninitializedRead
               | Some v \<Rightarrow> read_table n inFile charValue f (assign (char_of c) v freqTable))))"

text \<open>
  The header: \<^verbatim>\<open>inFile >> tableSize; inFile.ignore();\<close> and the loop. \<^verbatim>\<open>tableSize\<close> has
  no value either when the read stores none.
\<close>

definition read_header :: "string \<Rightarrow> error + ((char \<times> int) list \<times> string option)" where
  "read_header file =
     (let (tableSize, inFile) = read_int (Some file);
          inFile = ignore inFile
      in (case tableSize of
            None \<Rightarrow> Inl UninitializedRead
          | Some tableSize \<Rightarrow> read_table (nat tableSize) inFile None None []))"

text \<open>
  The loop \<^verbatim>\<open>while (inFile.get(byte))\<close>: the bytes that are left, none when the stream
  is not good.
\<close>

definition get_all :: "string option \<Rightarrow> string" where
  "get_all inFile = (case inFile of None \<Rightarrow> [] | Some bytes \<Rightarrow> bytes)"

text \<open>\<^verbatim>\<open>bitset<8> bits(byte); bits.to_string()\<close>: the most significant bit comes first.\<close>

definition bitset8_to_string :: "char \<Rightarrow> string" where
  "bitset8_to_string byte =
     map (\<lambda>i. if bit (of_char byte :: nat) i then CHR ''1'' else CHR ''0'') [7, 6, 5, 4, 3, 2, 1, 0]"

definition read_compressed :: "string \<Rightarrow> string" where
  "read_compressed bytes = concat (map bitset8_to_string bytes)"

text \<open>
  The loop \<^verbatim>\<open>for (char bit : encoded)\<close>. \<^verbatim>\<open>out\<close> is what \<^verbatim>\<open>outFile.put\<close> has written
  so far; the \<^verbatim>\<open>break\<close> and the end of the bits both leave the loop with it.
\<close>

fun decode_loop :: "HuffmanNode \<Rightarrow> HuffmanNode option \<Rightarrow> int \<Rightarrow> int \<Rightarrow> string \<Rightarrow> string \<Rightarrow> error + string" where
  "decode_loop huffmanTree current decodedCount totalChars [] out = Inr out"
| "decode_loop huffmanTree current decodedCount totalChars (b # encoded) out =
     (case current of
        None \<Rightarrow> Inl NullDereference
      | Some cur \<Rightarrow>
          (case (if b = CHR ''0'' then left cur else right cur) of
             None \<Rightarrow> Inl NullDereference
           | Some cur \<Rightarrow>
               if left cur = None \<and> right cur = None
               then if int32 (decodedCount + 1) = totalChars then Inr (out @ [data cur])
                    else decode_loop huffmanTree (Some huffmanTree) (int32 (decodedCount + 1))
                           totalChars encoded (out @ [data cur])
               else decode_loop huffmanTree (Some cur) decodedCount totalChars encoded out))"

text \<open>The loop \<^verbatim>\<open>for (auto& pair : freqTable) totalChars += pair.second\<close>.\<close>

definition count_total :: "(char \<times> int) list \<Rightarrow> int" where
  "count_total freqTable = foldl (\<lambda>totalChars pair. int32 (totalChars + snd pair)) 0 freqTable"

text \<open>
  \<^verbatim>\<open>decompressFile\<close>, from the content of the input file to the content of the output
  file. The source tests nothing between opening the file and the success message: a
  failed read of the header leaves the table as it is, and whatever the loop has
  written when it ends is the output, reported as a success.
\<close>

definition decompressFile :: "string option \<Rightarrow> error + string" where
  "decompressFile inFile =
     (case inFile of
        None \<Rightarrow> Inl CannotOpenInput
      | Some file \<Rightarrow>
          (case read_header file of
             Inl e \<Rightarrow> Inl e
           | Inr (freqTable, inFile) \<Rightarrow>
               (let encoded = read_compressed (get_all inFile)
                in (case buildHuffmanTree freqTable of
                      Inl e \<Rightarrow> Inl e
                    | Inr huffmanTree \<Rightarrow>
                        (let totalChars = count_total freqTable
                         in decode_loop huffmanTree (Some huffmanTree) 0 totalChars encoded [])))))"

section \<open>Notions used in the properties\<close>

text \<open>The invariant of \<^verbatim>\<open>std::map<char, int>\<close>: keys strictly increasing as signed bytes.\<close>

definition key_sorted :: "(char \<times> int) list \<Rightarrow> bool" where
  "key_sorted m = sorted_wrt (\<lambda>a b. char_to_int (fst a) < char_to_int (fst b)) m"

text \<open>A node is a leaf, or it has two children that are such nodes again.\<close>

fun full_tree :: "HuffmanNode \<Rightarrow> bool" where
  "full_tree (HuffmanNode d f None None) = True"
| "full_tree (HuffmanNode d f (Some l) (Some r)) = (full_tree l \<and> full_tree r)"
| "full_tree (HuffmanNode d f None (Some r)) = False"
| "full_tree (HuffmanNode d f (Some l) None) = False"

text \<open>Every node that has a child carries the zero byte.\<close>

fun internal_marked :: "HuffmanNode \<Rightarrow> bool" where
  "internal_marked (HuffmanNode d f None None) = True"
| "internal_marked (HuffmanNode d f (Some l) (Some r)) =
     (d = CHR 0x00 \<and> internal_marked l \<and> internal_marked r)"
| "internal_marked (HuffmanNode d f None (Some r)) = (d = CHR 0x00 \<and> internal_marked r)"
| "internal_marked (HuffmanNode d f (Some l) None) = (d = CHR 0x00 \<and> internal_marked l)"

text \<open>The leaves from left to right, each with its byte and count.\<close>

fun tree_leaves :: "HuffmanNode \<Rightarrow> (char \<times> int) list" where
  "tree_leaves (HuffmanNode d f None None) = [(d, f)]"
| "tree_leaves (HuffmanNode d f (Some l) (Some r)) = tree_leaves l @ tree_leaves r"
| "tree_leaves (HuffmanNode d f None (Some r)) = tree_leaves r"
| "tree_leaves (HuffmanNode d f (Some l) None) = tree_leaves l"

text \<open>The leaves of all the trees in the queue, as a multiset.\<close>

definition heap_leaves :: "HuffmanNode list \<Rightarrow> (char \<times> int) multiset" where
  "heap_leaves h = (\<Sum>t\<in>#mset h. mset (tree_leaves t))"

text \<open>One round of the loop of \<^verbatim>\<open>buildHuffmanTree\<close>: its body, as a function of the queue.\<close>

definition combine :: "HuffmanNode list \<Rightarrow> HuffmanNode list" where
  "combine minHeap =
     (let left = hd minHeap; minHeap = pq_pop minHeap;
          right = hd minHeap; minHeap = pq_pop minHeap;
          internalNode = HuffmanNode (CHR 0x00) (int32 (freq left + freq right))
                           (Some left) (Some right)
      in pq_push internalNode minHeap)"

text \<open>
  The assignments \<^verbatim>\<open>huffmanCodes[root->data] = code\<close> of one call of
  \<^verbatim>\<open>generateHuffmanCodes\<close>, in the order the walk makes them.
\<close>

fun code_paths :: "HuffmanNode option \<Rightarrow> string \<Rightarrow> (char \<times> string) list" where
  "code_paths None code = []"
| "code_paths (Some (HuffmanNode d f l r)) code =
     (if d \<noteq> CHR 0x00 then [(d, code)] else []) @
     code_paths l (code @ ''0'') @ code_paths r (code @ ''1'')"

text \<open>One assignment \<^verbatim>\<open>huffmanCodes[k] = v\<close>.\<close>

definition store :: "(char \<rightharpoonup> string) \<Rightarrow> char \<times> string \<Rightarrow> (char \<rightharpoonup> string)" where
  "store m p = m(fst p \<mapsto> snd p)"

text \<open>The string that \<^verbatim>\<open>huffmanCodes[c]\<close> yields: the code, or the empty string for a missing key.\<close>

definition code_of :: "(char \<rightharpoonup> string) \<Rightarrow> char \<Rightarrow> string" where
  "code_of huffmanCodes c = fst (subscript huffmanCodes c)"

text \<open>The two characters of a bit string.\<close>

definition is_bit :: "char \<Rightarrow> bool" where
  "is_bit ch = (ch = CHR ''0'' \<or> ch = CHR ''1'')"

text \<open>The number a bit string denotes, most significant bit first, and the inverse for \<open>k\<close> bits.\<close>

definition bits_value :: "string \<Rightarrow> nat" where
  "bits_value str = foldl (\<lambda>n ch. 2 * n + (if ch = CHR ''1'' then 1 else 0)) 0 str"

definition bits_string :: "nat \<Rightarrow> nat \<Rightarrow> string" where
  "bits_string k n = map (\<lambda>i. if bit n i then CHR ''1'' else CHR ''0'') (rev [0..<k])"

text \<open>
  A rest of the input at which \<^verbatim>\<open>operator>>\<close> stops reading digits with the stream still
  good: it starts with a character that is not a digit.
\<close>

definition stops_digits :: "string \<Rightarrow> bool" where
  "stops_digits rest = (case rest of [] \<Rightarrow> False | c # _ \<Rightarrow> \<not> isdigit c)"

text \<open>One line of the table, as \<^const>\<open>write_header\<close> writes it.\<close>

definition table_line :: "char \<times> int \<Rightarrow> string" where
  "table_line p = show_int (char_to_int (fst p)) @ [CHR 0x20] @ show_int (snd p) @ [CHR 0x0A]"

text \<open>
  The number of symbols at which the decoder's loop stops: the counter is incremented
  before it is compared with the total, so for a total that is not positive the two meet
  only after the counter has wrapped around.
\<close>

definition stop_count :: "int \<Rightarrow> int" where
  "stop_count totalChars = (if 0 < totalChars then totalChars else totalChars + 4294967296)"

text \<open>The leaves of a tree with the path from the root to each, 0 for left and 1 for right.\<close>

fun leaf_paths :: "HuffmanNode \<Rightarrow> (char \<times> string) list" where
  "leaf_paths (HuffmanNode d f None None) = [(d, [])]"
| "leaf_paths (HuffmanNode d f (Some l) (Some r)) =
     map (\<lambda>p. (fst p, CHR ''0'' # snd p)) (leaf_paths l) @
     map (\<lambda>p. (fst p, CHR ''1'' # snd p)) (leaf_paths r)"
| "leaf_paths (HuffmanNode d f None (Some r)) = []"
| "leaf_paths (HuffmanNode d f (Some l) None) = []"

section \<open>Properties\<close>

subsection \<open>Empty input\<close>

text \<open>
  Claim C7. Compressing the zero-length buffer signals the empty-input error
  ("Error: File is empty!") and returns before a frequency table or a tree is built;
  no output file is written.
\<close>

theorem C7_empty_input_error: "compressFile (Some []) = Inl FileIsEmpty"
  by (simp add: compressFile_def)

subsection \<open>The frequency table\<close>

lemma char_to_int_inj: "char_to_int a = char_to_int b \<Longrightarrow> a = b"
proof -
  assume eq: "char_to_int a = char_to_int b"
  have "(of_char a :: int) < 256" "(of_char b :: int) < 256"
    "0 \<le> (of_char a :: int)" "0 \<le> (of_char b :: int)"
    using nat_of_char_less_256 [of a] nat_of_char_less_256 [of b]
    by (metis of_nat_of_char of_nat_less_iff of_nat_numeral, metis of_nat_of_char of_nat_less_iff of_nat_numeral, metis of_nat_of_char of_nat_0_le_iff, metis of_nat_of_char of_nat_0_le_iff)
  with eq have "(of_char a :: int) = of_char b"
    by (auto simp: char_to_int_def Let_def split: if_splits)
  then show "a = b" by simp
qed

lemma keys_increment: "fst ` set (increment c m) = insert c (fst ` set m)"
  by (induction c m rule: increment.induct) auto

lemma key_sorted_increment: "key_sorted m \<Longrightarrow> key_sorted (increment c m)"
proof (induction c m rule: increment.induct)
  case (1 c)
  then show ?case by (simp add: key_sorted_def)
next
  case (2 c k v m)
  show ?case
  proof (cases "c = k")
    case True
    with 2 show ?thesis by (auto simp: key_sorted_def)
  next
    case False
    note ck = this
    show ?thesis
    proof (cases "char_to_int c < char_to_int k")
      case True
      with 2 ck show ?thesis by (auto simp: key_sorted_def)
    next
      case False
      with ck have lt: "char_to_int k < char_to_int c"
        using char_to_int_inj [of c k] by force
      have ih: "key_sorted (increment c m)"
        using 2 ck False by (simp add: key_sorted_def)
      have "\<forall>x \<in> set (increment c m). char_to_int k < char_to_int (fst x)"
      proof
        fix x assume "x \<in> set (increment c m)"
        then have "fst x \<in> insert c (fst ` set m)"
          using keys_increment [of c m] by blast
        with lt "2.prems" show "char_to_int k < char_to_int (fst x)"
          by (auto simp: key_sorted_def)
      qed
      with ih ck False show ?thesis by (simp add: key_sorted_def)
    qed
  qed
qed

lemma key_sorted_distinct: "key_sorted m \<Longrightarrow> distinct (map fst m)"
  by (induction m) (auto simp: key_sorted_def)

lemma foldl_increment_keys:
  "key_sorted m \<Longrightarrow>
   key_sorted (foldl (\<lambda>freqTable c. increment c freqTable) m content) \<and>
   fst ` set (foldl (\<lambda>freqTable c. increment c freqTable) m content) = fst ` set m \<union> set content"
proof (induction content arbitrary: m)
  case Nil
  then show ?case by simp
next
  case (Cons c content)
  from Cons.IH [OF key_sorted_increment [OF Cons.prems], of c] show ?case
    by (simp add: keys_increment)
qed

lemma buildFrequencyTable_keys:
  "key_sorted (buildFrequencyTable content)"
  "fst ` set (buildFrequencyTable content) = set content"
  using foldl_increment_keys [of "[]" content]
  by (simp_all add: buildFrequencyTable_def key_sorted_def)

text \<open>The wrap-around leaves a value within the 32 bits as it is.\<close>

lemma int32_id: "- 2147483648 \<le> x \<Longrightarrow> x \<le> 2147483647 \<Longrightarrow> int32 x = x"
  by (simp add: int32_def)

lemma int32_range: "- 2147483648 \<le> int32 x \<and> int32 x \<le> 2147483647"
proof -
  have "0 \<le> (x + 2147483648) mod 4294967296" "(x + 2147483648) mod 4294967296 < 4294967296"
    by simp_all
  then show ?thesis unfolding int32_def by linarith
qed

lemma int32_add_left: "int32 (int32 a + b) = int32 (a + b)"
proof -
  define r where "r = (a + 2147483648) mod 4294967296"
  have "int32 a + b + 2147483648 = r + b"
    unfolding int32_def r_def by linarith
  then have "(int32 a + b + 2147483648) mod 4294967296 = (r + b) mod 4294967296"
    by (simp only:)
  also have "\<dots> = (a + 2147483648 + b) mod 4294967296"
    unfolding r_def by (rule mod_add_left_eq)
  also have "a + 2147483648 + b = a + b + 2147483648" by linarith
  finally show ?thesis
    unfolding int32_def [of "int32 a + b"] int32_def [of "a + b"] by (simp only:)
qed

lemma increment_counts:
  "\<forall>p \<in> set m. 0 < snd p \<Longrightarrow> sum_list (map snd m) < 2147483647 \<Longrightarrow>
   (\<forall>p \<in> set (increment c m). 0 < snd p) \<and>
   sum_list (map snd (increment c m)) = sum_list (map snd m) + 1"
proof (induction c m rule: increment.induct)
  case (1 c)
  show ?case by simp
next
  case (2 c k v m)
  have nonneg: "0 \<le> sum_list (map snd m)"
    using "2.prems"(1) by (intro sum_list_nonneg) auto
  have v: "0 < v" using "2.prems"(1) by simp
  show ?case
  proof (cases "c = k")
    case True
    have "int32 (v + 1) = v + 1"
      using v nonneg "2.prems"(2) by (intro int32_id) simp_all
    with True v "2.prems"(1) show ?thesis by simp
  next
    case False
    show ?thesis
    proof (cases "char_to_int c < char_to_int k")
      case True
      with False "2.prems"(1) show ?thesis by simp
    next
      case lt: False
      have "sum_list (map snd m) < 2147483647" using v "2.prems"(2) by simp
      with "2.IH" [OF False lt] "2.prems"(1) False lt v show ?thesis by simp
    qed
  qed
qed

lemma foldl_increment:
  "\<forall>p \<in> set m. 0 < snd p \<Longrightarrow> sum_list (map snd m) + int (length content) \<le> 2147483647 \<Longrightarrow>
   (\<forall>p \<in> set (foldl (\<lambda>freqTable c. increment c freqTable) m content). 0 < snd p) \<and>
   sum_list (map snd (foldl (\<lambda>freqTable c. increment c freqTable) m content)) =
     sum_list (map snd m) + int (length content)"
proof (induction content arbitrary: m)
  case Nil
  then show ?case by simp
next
  case (Cons c content)
  have "sum_list (map snd m) < 2147483647" using Cons.prems(2) by simp
  from increment_counts [OF Cons.prems(1) this, of c]
  have pos: "\<forall>p \<in> set (increment c m). 0 < snd p"
    and sum: "sum_list (map snd (increment c m)) = sum_list (map snd m) + 1"
    by simp_all
  have "sum_list (map snd (increment c m)) + int (length content) \<le> 2147483647"
    using Cons.prems(2) sum by simp
  from Cons.IH [OF pos this] sum show ?case by simp
qed

lemma buildFrequencyTable_counts:
  assumes "int (length content) \<le> 2147483647"
  shows "\<forall>p \<in> set (buildFrequencyTable content). 0 < snd p"
    and "sum_list (map snd (buildFrequencyTable content)) = int (length content)"
  using foldl_increment [of "[]" content] assms
  by (simp_all add: buildFrequencyTable_def)



text \<open>The table of a buffer of copies of one byte.\<close>

lemma increment_replicate:
  "foldl (\<lambda>freqTable c. increment c freqTable) [(c, int32 v)] (replicate n c) =
     [(c, int32 (v + int n))]"
proof (induction n arbitrary: v)
  case 0
  show ?case by simp
next
  case (Suc n)
  have "foldl (\<lambda>freqTable c. increment c freqTable) [(c, int32 v)] (replicate (Suc n) c) =
        foldl (\<lambda>freqTable c. increment c freqTable) [(c, int32 (v + 1))] (replicate n c)"
    by (simp add: int32_add_left)
  also have "\<dots> = [(c, int32 (v + 1 + int n))]" by (rule Suc.IH)
  finally show ?case by (simp add: add.commute add.left_commute)
qed

lemma buildFrequencyTable_replicate:
  "buildFrequencyTable (replicate (Suc n) c) = [(c, int32 (1 + int n))]"
proof -
  have "int32 1 = 1" by (simp add: int32_def)
  then show ?thesis
    using increment_replicate [of c 1 n] by (simp add: buildFrequencyTable_def)
qed


subsection \<open>The priority queue keeps its elements\<close>

text \<open>
  Both heap algorithms move a hole through the vector and fill it at the end, so the
  vector after the call is a permutation of the vector before it.
\<close>

lemma mset_move_hole:
  assumes "p < length xs" "h < length xs" "p \<noteq> h"
  shows "mset (xs[h := xs ! p, p := v]) = mset (xs[h := v])"
proof -
  have "mset (xs[h := xs ! p, p := v]) = add_mset v (mset (xs[h := xs ! p]) - {#xs ! p#})"
    using assms by (simp add: mset_update)
  also have "mset (xs[h := xs ! p]) = add_mset (xs ! p) (mset xs - {#xs ! h#})"
    using assms by (simp add: mset_update)
  finally show ?thesis
    using assms by (simp add: mset_update)
qed

lemma push_heap_value_mset:
  "holeIndex < length first \<Longrightarrow>
   mset (push_heap_value first holeIndex topIndex val) = mset (first[holeIndex := val])"
proof (induction first holeIndex topIndex val rule: push_heap_value.induct)
  case (1 first holeIndex topIndex val)
  let ?parent = "(holeIndex - 1) div 2"
  show ?case
  proof (cases "holeIndex > topIndex \<and> NodeComparator (first ! ?parent) val")
    case True
    then have lt: "?parent < holeIndex" by auto
    have "mset (push_heap_value first holeIndex topIndex val) =
          mset (push_heap_value (first[holeIndex := first ! ?parent]) ?parent topIndex val)"
      using True by (subst push_heap_value.simps) (simp add: Let_def)
    also have "\<dots> = mset (first[holeIndex := first ! ?parent, ?parent := val])"
      using "1.IH" [of ?parent] True lt "1.prems" by simp
    also have "\<dots> = mset (first[holeIndex := val])"
      using mset_move_hole [of ?parent first holeIndex val] lt "1.prems" by simp
    finally show ?thesis .
  next
    case False
    then show ?thesis
      by (subst push_heap_value.simps) (auto simp: Let_def)
  qed
qed

lemma push_heap_value_above:
  "holeIndex < i \<Longrightarrow> push_heap_value first holeIndex topIndex val ! i = first ! i"
proof (induction first holeIndex topIndex val rule: push_heap_value.induct)
  case (1 first holeIndex topIndex val)
  let ?parent = "(holeIndex - 1) div 2"
  show ?case
  proof (cases "holeIndex > topIndex \<and> NodeComparator (first ! ?parent) val")
    case True
    then have lt: "?parent < holeIndex" by auto
    have "push_heap_value first holeIndex topIndex val ! i =
          push_heap_value (first[holeIndex := first ! ?parent]) ?parent topIndex val ! i"
      using True by (subst push_heap_value.simps) (simp add: Let_def)
    also have "\<dots> = (first[holeIndex := first ! ?parent]) ! i"
      using "1.IH" [of ?parent] True lt "1.prems" by simp
    finally show ?thesis using "1.prems" by simp
  next
    case False
    then show ?thesis
      using "1.prems" by (subst push_heap_value.simps) (auto simp: Let_def)
  qed
qed

lemma adjust_heap_loop_props:
  "secondChild = holeIndex \<Longrightarrow> holeIndex < len \<Longrightarrow> len \<le> length first \<Longrightarrow>
   adjust_heap_loop first holeIndex secondChild len = (f, h, s) \<Longrightarrow>
   length f = length first \<and> h < len \<and> s = h \<and> holeIndex \<le> h \<and>
   (\<forall>v. mset (f[h := v]) = mset (first[holeIndex := v])) \<and>
   (\<forall>i\<ge>len. f ! i = first ! i)"
proof (induction first holeIndex secondChild len arbitrary: f h s rule: adjust_heap_loop.induct)
  case (1 first holeIndex secondChild len)
  note eq = \<open>secondChild = holeIndex\<close>
  show ?case
  proof (cases "secondChild < (len - 1) div 2")
    case False
    then have "adjust_heap_loop first holeIndex secondChild len = (first, holeIndex, secondChild)"
      by (subst adjust_heap_loop.simps) simp
    with "1.prems" show ?thesis by auto
  next
    case True
    define sc0 where "sc0 = 2 * (secondChild + 1)"
    define sc where "sc = (if NodeComparator (first ! sc0) (first ! (sc0 - 1)) then sc0 - 1 else sc0)"
    have sc_bounds: "holeIndex < sc" "sc < len"
      using True eq by (auto simp: sc_def sc0_def)
    have step: "adjust_heap_loop first holeIndex secondChild len =
                adjust_heap_loop (first[holeIndex := first ! sc]) sc sc len"
      using True by (subst adjust_heap_loop.simps) (simp add: Let_def sc_def sc0_def)
    with "1.prems" have res: "adjust_heap_loop (first[holeIndex := first ! sc]) sc sc len = (f, h, s)"
      by simp
    have ih: "length f = length (first[holeIndex := first ! sc]) \<and> h < len \<and> s = h \<and> sc \<le> h \<and>
              (\<forall>v. mset (f[h := v]) = mset (first[holeIndex := first ! sc, sc := v])) \<and>
              (\<forall>i\<ge>len. f ! i = (first[holeIndex := first ! sc]) ! i)"
      using "1.IH" [OF True sc0_def sc_def refl _ _ res] sc_bounds "1.prems" by simp
    have "\<forall>v. mset (first[holeIndex := first ! sc, sc := v]) = mset (first[holeIndex := v])"
      using mset_move_hole [of sc first holeIndex] sc_bounds "1.prems" by simp
    with ih sc_bounds "1.prems" show ?thesis by auto
  qed
qed

lemma adjust_heap_props:
  assumes "0 < len" "len \<le> length first"
  shows "length (adjust_heap first 0 len val) = length first"
    and "mset (adjust_heap first 0 len val) = mset (first[0 := val])"
    and "\<forall>i\<ge>len. adjust_heap first 0 len val ! i = first ! i"
proof -
  obtain f h s where loop: "adjust_heap_loop first 0 0 len = (f, h, s)"
    by (cases "adjust_heap_loop first 0 0 len") auto
  have props: "length f = length first" "h < len" "s = h"
    "\<forall>v. mset (f[h := v]) = mset (first[0 := v])" "\<forall>i\<ge>len. f ! i = first ! i"
    using adjust_heap_loop_props [OF refl assms(1) assms(2) loop] by auto
  show "length (adjust_heap first 0 len val) = length first" by simp
  show "mset (adjust_heap first 0 len val) = mset (first[0 := val])"
  proof (cases "len mod 2 = 0 \<and> s = (len - 2) div 2")
    case False
    then have "adjust_heap first 0 len val = push_heap_value f h 0 val"
      by (auto simp: adjust_heap_def loop Let_def)
    then show ?thesis
      using push_heap_value_mset [of h f 0 val] props assms by simp
  next
    case True
    then have h_lt: "h < len - 1" and len2: "2 * (s + 1) - 1 = len - 1"
      using props(3) assms(1) by presburger+
    from True have "adjust_heap first 0 len val =
        push_heap_value (f[h := f ! (len - 1)]) (len - 1) 0 val"
      using len2 by (simp add: adjust_heap_def loop Let_def)
    then have "mset (adjust_heap first 0 len val) = mset (f[h := f ! (len - 1), len - 1 := val])"
      using push_heap_value_mset [of "len - 1" "f[h := f ! (len - 1)]" 0 val] props assms by simp
    also have "\<dots> = mset (f[h := val])"
      using mset_move_hole [of "len - 1" f h val] h_lt props assms by simp
    finally show ?thesis using props by simp
  qed
  show "\<forall>i\<ge>len. adjust_heap first 0 len val ! i = first ! i"
  proof (intro allI impI)
    fix i assume i: "len \<le> i"
    show "adjust_heap first 0 len val ! i = first ! i"
    proof (cases "len mod 2 = 0 \<and> s = (len - 2) div 2")
      case False
      then have "adjust_heap first 0 len val = push_heap_value f h 0 val"
        by (auto simp: adjust_heap_def loop Let_def)
      then show ?thesis
        using push_heap_value_above [of h i f 0 val] props i by simp
    next
      case True
      then have h_lt: "h < len - 1" and len2: "2 * (s + 1) - 1 = len - 1"
        using props(3) assms(1) by presburger+
      from True have "adjust_heap first 0 len val =
          push_heap_value (f[h := f ! (len - 1)]) (len - 1) 0 val"
        using len2 by (simp add: adjust_heap_def loop Let_def)
      then show ?thesis
        using push_heap_value_above [of "len - 1" i "f[h := f ! (len - 1)]" 0 val] props i h_lt assms
        by simp
    qed
  qed
qed

lemma mset_pq_push: "mset (pq_push x c) = add_mset x (mset c)"
  using push_heap_value_mset [of "length c" "c @ [x]" 0 x]
  by (simp add: pq_push_def push_heap_def)

lemma pop_heap_props:
  assumes "c \<noteq> []"
  shows "mset (pop_heap c) = mset c" and "last (pop_heap c) = hd c" and "pop_heap c \<noteq> []"
proof -
  have "mset (pop_heap c) = mset c \<and> last (pop_heap c) = hd c \<and> pop_heap c \<noteq> []"
  proof (cases "length c > 1")
    case False
    with assms have "length c = 1" by (cases c) auto
    then obtain x where "c = [x]" by (cases c) auto
    then show ?thesis by (simp add: pop_heap_def)
  next
    case True
    let ?r = "length c - 1"
    let ?c' = "c[?r := c ! 0]"
    have eq: "pop_heap c = adjust_heap ?c' 0 ?r (c ! ?r)"
      using True by (simp add: pop_heap_def Let_def)
    have len: "0 < ?r" "?r \<le> length ?c'" using True by auto
    have "mset (pop_heap c) = mset (?c'[0 := c ! ?r])"
      using adjust_heap_props(2) [OF len] eq by simp
    also have "\<dots> = mset c"
      using mset_swap [of 0 c ?r] True assms by simp
    finally have m: "mset (pop_heap c) = mset c" .
    have "pop_heap c ! ?r = ?c' ! ?r"
      using adjust_heap_props(3) [OF len] eq by simp
    then have "pop_heap c ! ?r = c ! 0" using True by simp
    moreover have l: "length (pop_heap c) = length c" using eq by simp
    moreover have "pop_heap c \<noteq> []" using l True by auto
    ultimately have "last (pop_heap c) = hd c"
      using True assms by (simp add: last_conv_nth hd_conv_nth)
    with m l True show ?thesis by auto
  qed
  then show "mset (pop_heap c) = mset c" and "last (pop_heap c) = hd c" and "pop_heap c \<noteq> []"
    by auto
qed

lemma mset_pq_pop: "c \<noteq> [] \<Longrightarrow> add_mset (hd c) (mset (pq_pop c)) = mset c"
proof -
  assume ne: "c \<noteq> []"
  have "pop_heap c = butlast (pop_heap c) @ [last (pop_heap c)]"
    using pop_heap_props(3) [OF ne] by simp
  then have "mset (pop_heap c) = add_mset (last (pop_heap c)) (mset (butlast (pop_heap c)))"
    by (metis mset.simps(2) mset_append union_mset_add_mset_right add.right_neutral mset.simps(1))
  then show ?thesis
    using pop_heap_props(1,2) [OF ne] by (simp add: pq_pop_def)
qed

subsection \<open>The shape of the tree\<close>

lemma set_pq_push: "set (pq_push x c) = insert x (set c)"
  using mset_pq_push [of x c] by (metis set_mset_add_mset_insert set_mset_mset)

lemma set_pq_pop: "c \<noteq> [] \<Longrightarrow> insert (hd c) (set (pq_pop c)) = set c"
  using mset_pq_pop [of c] by (metis set_mset_add_mset_insert set_mset_mset)

lemma heap_leaves_push: "heap_leaves (pq_push x c) = mset (tree_leaves x) + heap_leaves c"
  by (simp add: heap_leaves_def mset_pq_push)

lemma heap_leaves_pop: "c \<noteq> [] \<Longrightarrow> mset (tree_leaves (hd c)) + heap_leaves (pq_pop c) = heap_leaves c"
  using mset_pq_pop [of c] unfolding heap_leaves_def
  by (metis image_mset_add_mset sum_mset.insert)

lemma buildHuffmanTree_loop_step:
  "buildHuffmanTree_loop minHeap =
     (if length minHeap > 1 then buildHuffmanTree_loop (combine minHeap) else minHeap)"
  by (subst buildHuffmanTree_loop.simps) (simp add: combine_def Let_def)

lemma length_combine: "length minHeap > 1 \<Longrightarrow> length (combine minHeap) = length minHeap - 1"
  by (simp add: combine_def Let_def)

lemma combine_props:
  assumes "length minHeap > 1"
  shows "\<exists>l r rest. l \<in> set minHeap \<and> r \<in> set minHeap \<and> set rest \<subseteq> set minHeap \<and>
           length rest = length minHeap - 2 \<and>
           set (combine minHeap) = insert (HuffmanNode (CHR 0x00) (int32 (freq l + freq r)) (Some l) (Some r)) (set rest)"
    and "heap_leaves (combine minHeap) = heap_leaves minHeap"
proof -
  let ?l = "hd minHeap" and ?h1 = "pq_pop minHeap"
  let ?r = "hd ?h1" and ?h2 = "pq_pop ?h1"
  have "length ?h1 = length minHeap - 1" by simp
  then have ne: "minHeap \<noteq> []" "?h1 \<noteq> []" using assms by (auto simp del: length_pq_pop)
  have s1: "insert ?l (set ?h1) = set minHeap" using set_pq_pop [OF ne(1)] .
  have s2: "insert ?r (set ?h2) = set ?h1" using set_pq_pop [OF ne(2)] .
  have eq: "combine minHeap = pq_push (HuffmanNode (CHR 0x00) (int32 (freq ?l + freq ?r)) (Some ?l) (Some ?r)) ?h2"
    by (simp add: combine_def Let_def)
  have "?l \<in> set minHeap" "?r \<in> set minHeap" "set ?h2 \<subseteq> set minHeap"
    using s1 s2 by auto
  moreover have "length ?h2 = length minHeap - 2" by simp
  moreover have "set (combine minHeap) =
      insert (HuffmanNode (CHR 0x00) (int32 (freq ?l + freq ?r)) (Some ?l) (Some ?r)) (set ?h2)"
    by (simp add: eq set_pq_push)
  ultimately show "\<exists>l r rest. l \<in> set minHeap \<and> r \<in> set minHeap \<and> set rest \<subseteq> set minHeap \<and>
           length rest = length minHeap - 2 \<and>
           set (combine minHeap) = insert (HuffmanNode (CHR 0x00) (int32 (freq l + freq r)) (Some l) (Some r)) (set rest)"
    by blast
  have "heap_leaves (combine minHeap) = mset (tree_leaves ?l) + mset (tree_leaves ?r) + heap_leaves ?h2"
    by (simp add: eq heap_leaves_push)
  also have "\<dots> = heap_leaves minHeap"
    using heap_leaves_pop [OF ne(1)] heap_leaves_pop [OF ne(2)] by (simp add: ac_simps)
  finally show "heap_leaves (combine minHeap) = heap_leaves minHeap" .
qed

lemma combine_inv:
  assumes "length minHeap > 1" and "\<forall>t \<in> set minHeap. full_tree t \<and> internal_marked t"
  shows "\<forall>t \<in> set (combine minHeap). full_tree t \<and> internal_marked t"
proof -
  obtain l r rest where lr: "l \<in> set minHeap" "r \<in> set minHeap" "set rest \<subseteq> set minHeap"
    and eq: "set (combine minHeap) =
             insert (HuffmanNode (CHR 0x00) (int32 (freq l + freq r)) (Some l) (Some r)) (set rest)"
    using combine_props(1) [OF assms(1)] by blast
  have "full_tree (HuffmanNode (CHR 0x00) (int32 (freq l + freq r)) (Some l) (Some r))"
       "internal_marked (HuffmanNode (CHR 0x00) (int32 (freq l + freq r)) (Some l) (Some r))"
    using lr assms(2) by simp_all
  moreover have "\<forall>t \<in> set rest. full_tree t \<and> internal_marked t"
    using lr(3) assms(2) by blast
  ultimately show ?thesis unfolding eq by simp
qed

lemma buildHuffmanTree_loop_props:
  "minHeap \<noteq> [] \<Longrightarrow> \<forall>t \<in> set minHeap. full_tree t \<and> internal_marked t \<Longrightarrow>
   \<exists>t. buildHuffmanTree_loop minHeap = [t] \<and> full_tree t \<and> internal_marked t \<and>
       mset (tree_leaves t) = heap_leaves minHeap \<and>
       (length minHeap > 1 \<longrightarrow> left t \<noteq> None \<and> right t \<noteq> None)"
proof (induction "length minHeap" arbitrary: minHeap rule: less_induct)
  case less
  show ?case
  proof (cases "length minHeap > 1")
    case False
    with less.prems obtain t where "minHeap = [t]" by (cases minHeap) auto
    with less.prems False show ?thesis
      by (subst buildHuffmanTree_loop_step) (simp add: heap_leaves_def)
  next
    case True
    let ?h = "combine minHeap"
    have len: "length ?h = length minHeap - 1" using length_combine [OF True] .
    then have ne: "?h \<noteq> []" using True by auto
    have inv: "\<forall>t \<in> set ?h. full_tree t \<and> internal_marked t"
      using combine_inv [OF True] less.prems by blast
    have ih: "\<exists>t. buildHuffmanTree_loop ?h = [t] \<and> full_tree t \<and> internal_marked t \<and>
       mset (tree_leaves t) = heap_leaves ?h \<and> (length ?h > 1 \<longrightarrow> left t \<noteq> None \<and> right t \<noteq> None)"
      using less.hyps [of ?h, OF _ ne inv] len True by simp
    then obtain t where t: "buildHuffmanTree_loop ?h = [t]" "full_tree t" "internal_marked t"
       "mset (tree_leaves t) = heap_leaves ?h" "length ?h > 1 \<longrightarrow> left t \<noteq> None \<and> right t \<noteq> None"
      by blast
    have root: "left t \<noteq> None \<and> right t \<noteq> None"
    proof (cases "length ?h > 1")
      case True
      with t show ?thesis by simp
    next
      case False
      then have one: "length ?h = 1" using ne by (cases ?h) auto
      then have "buildHuffmanTree_loop ?h = ?h" by (subst buildHuffmanTree_loop_step) simp
      with t have h: "?h = [t]" by simp
      obtain l r rest where "set ?h = insert (HuffmanNode (CHR 0x00) (int32 (freq l + freq r)) (Some l) (Some r)) (set rest)"
        using combine_props(1) [OF True] by blast
      with h have "t = HuffmanNode (CHR 0x00) (int32 (freq l + freq r)) (Some l) (Some r)" by auto
      then show ?thesis by simp
    qed
    have "buildHuffmanTree_loop minHeap = [t]"
      using True t(1) by (subst buildHuffmanTree_loop_step) simp
    with t root combine_props(2) [OF True] show ?thesis by simp
  qed
qed

lemma foldl_push_length:
  "length (foldl (\<lambda>minHeap (c, f). pq_push (HuffmanNode c f None None) minHeap) h freqTable)
     = length h + length freqTable"
  by (induction freqTable arbitrary: h) (simp_all add: case_prod_beta)

lemma foldl_push_inv:
  "\<forall>t \<in> set h. full_tree t \<and> internal_marked t \<Longrightarrow>
   \<forall>t \<in> set (foldl (\<lambda>minHeap (c, f). pq_push (HuffmanNode c f None None) minHeap) h freqTable).
      full_tree t \<and> internal_marked t"
proof (induction freqTable arbitrary: h)
  case Nil
  then show ?case by simp
next
  case (Cons p freqTable)
  have "\<forall>t \<in> set (pq_push (HuffmanNode (fst p) (snd p) None None) h). full_tree t \<and> internal_marked t"
    using Cons.prems by (simp add: set_pq_push)
  from Cons.IH [OF this] show ?case by (simp add: case_prod_beta)
qed

lemma foldl_push_leaves:
  "heap_leaves (foldl (\<lambda>minHeap (c, f). pq_push (HuffmanNode c f None None) minHeap) h freqTable)
     = heap_leaves h + mset freqTable"
proof (induction freqTable arbitrary: h)
  case Nil
  show ?case by simp
next
  case (Cons p freqTable)
  have "heap_leaves (pq_push (HuffmanNode (fst p) (snd p) None None) h) = add_mset p (heap_leaves h)"
    by (simp add: heap_leaves_push)
  with Cons.IH [of "pq_push (HuffmanNode (fst p) (snd p) None None) h"] show ?case
    by (simp add: case_prod_beta)
qed

lemma leaves_heap_props:
  "length (leaves_heap freqTable) = length freqTable"
  "\<forall>t \<in> set (leaves_heap freqTable). full_tree t \<and> internal_marked t"
  "heap_leaves (leaves_heap freqTable) = mset freqTable"
  using foldl_push_length [of "[]" freqTable] foldl_push_inv [of "[]" freqTable]
    foldl_push_leaves [of "[]" freqTable]
  by (simp_all add: leaves_heap_def heap_leaves_def)

lemma buildHuffmanTree_props:
  assumes "freqTable \<noteq> []"
  shows "\<exists>t. buildHuffmanTree freqTable = Inr t \<and> full_tree t \<and> internal_marked t \<and>
           mset (tree_leaves t) = mset freqTable \<and>
           (length freqTable > 1 \<longrightarrow> left t \<noteq> None \<and> right t \<noteq> None)"
proof -
  let ?h = "leaves_heap freqTable"
  have "?h \<noteq> []" using leaves_heap_props(1) [of freqTable] assms by auto
  then obtain t where "buildHuffmanTree_loop ?h = [t]" "full_tree t" "internal_marked t"
     "mset (tree_leaves t) = heap_leaves ?h" "length ?h > 1 \<longrightarrow> left t \<noteq> None \<and> right t \<noteq> None"
    using buildHuffmanTree_loop_props [of ?h] leaves_heap_props(2) [of freqTable] by blast
  then show ?thesis
    using leaves_heap_props(1,3) [of freqTable] by (simp add: buildHuffmanTree_def pq_top_def)
qed

subsection \<open>Code assignment\<close>

lemma store_pair: "store m (k, v) = m(k \<mapsto> v)"
  by (simp add: store_def)

lemma generateHuffmanCodes_paths:
  "generateHuffmanCodes root code huffmanCodes = foldl store huffmanCodes (code_paths root code)"
proof (induction root code huffmanCodes rule: generateHuffmanCodes.induct)
  case (1 code huffmanCodes)
  show ?case by simp
next
  case (2 d f l r code huffmanCodes)
  show ?case
    using 2 by (simp add: Let_def store_pair)
qed

lemma foldl_store_cases:
  "foldl store m0 ps a = Some x \<Longrightarrow> (a, x) \<in> set ps \<or> m0 a = Some x"
proof (induction ps arbitrary: m0)
  case Nil
  then show ?case by simp
next
  case (Cons p ps)
  from Cons.IH [of "store m0 p"] Cons.prems
  have "(a, x) \<in> set ps \<or> store m0 p a = Some x" by simp
  then show ?case
    by (cases p) (auto simp: store_pair split: if_splits)
qed

lemma foldl_store_no_key:
  "a \<notin> fst ` set ps \<Longrightarrow> foldl store m0 ps a = m0 a"
  by (induction ps arbitrary: m0) (auto simp: store_pair)

lemma code_paths_nonzero: "(k, v) \<in> set (code_paths root code) \<Longrightarrow> k \<noteq> CHR 0x00"
  by (induction root code rule: code_paths.induct) (auto split: if_splits)

lemma code_paths_extend: "(k, v) \<in> set (code_paths root code) \<Longrightarrow> prefix code v"
proof (induction root code rule: code_paths.induct)
  case (1 code)
  then show ?case by simp
next
  case (2 d f l r code)
  then show ?case
    by (auto split: if_splits dest: append_prefixD)
qed

lemma code_paths_bits:
  "(k, v) \<in> set (code_paths root code) \<Longrightarrow> set v \<subseteq> set code \<union> {CHR ''0'', CHR ''1''}"
  by (induction root code rule: code_paths.induct) (auto split: if_splits)

lemma branches_apart: "prefix (code @ ''0'') x \<Longrightarrow> prefix (code @ ''1'') y \<Longrightarrow> \<not> prefix x y \<and> \<not> prefix y x"
proof -
  assume a: "prefix (code @ ''0'') x" and b: "prefix (code @ ''1'') y"
  then obtain x' y' where x: "x = code @ ''0'' @ x'" and y: "y = code @ ''1'' @ y'"
    by (auto simp: prefix_def)
  show ?thesis unfolding x y by simp
qed

lemma code_paths_prefix_free:
  "full_tree t \<Longrightarrow> internal_marked t \<Longrightarrow>
   (a, x) \<in> set (code_paths (Some t) code) \<Longrightarrow> (b, y) \<in> set (code_paths (Some t) code) \<Longrightarrow>
   a \<noteq> b \<Longrightarrow> \<not> prefix x y"
proof (induction t arbitrary: code rule: full_tree.induct)
  case (1 d f)
  then show ?case by (auto split: if_splits)
next
  case (2 d f l r)
  have d0: "d = CHR 0x00" and fl: "full_tree l" "internal_marked l" and fr: "full_tree r" "internal_marked r"
    using "2.prems" by auto
  have mem: "(a, x) \<in> set (code_paths (Some l) (code @ ''0'')) \<or> (a, x) \<in> set (code_paths (Some r) (code @ ''1''))"
     "(b, y) \<in> set (code_paths (Some l) (code @ ''0'')) \<or> (b, y) \<in> set (code_paths (Some r) (code @ ''1''))"
    using "2.prems"(3,4) d0 by auto
  show ?case
  proof (cases "(a, x) \<in> set (code_paths (Some l) (code @ ''0''))")
    case ax: True
    show ?thesis
    proof (cases "(b, y) \<in> set (code_paths (Some l) (code @ ''0''))")
      case True
      then show ?thesis using "2.IH"(1) [OF fl ax True "2.prems"(5)] by simp
    next
      case False
      with mem have "(b, y) \<in> set (code_paths (Some r) (code @ ''1''))" by simp
      then show ?thesis
        using branches_apart [of code x y] code_paths_extend ax by blast
    qed
  next
    case False
    with mem have ax: "(a, x) \<in> set (code_paths (Some r) (code @ ''1''))" by simp
    show ?thesis
    proof (cases "(b, y) \<in> set (code_paths (Some r) (code @ ''1''))")
      case True
      then show ?thesis using "2.IH"(2) [OF fr ax True "2.prems"(5)] by simp
    next
      case False
      with mem have "(b, y) \<in> set (code_paths (Some l) (code @ ''0''))" by simp
      then show ?thesis
        using branches_apart [of code y x] code_paths_extend ax by blast
    qed
  qed
next
  case (3 d f r)
  then show ?case by simp
next
  case (4 d f l)
  then show ?case by simp
qed

text \<open>
  Claim C3. For every frequency table with at least two symbols (a \<^verbatim>\<open>std::map\<close> has one
  entry for each), the tree is built and no code that \<^verbatim>\<open>generateHuffmanCodes\<close> assigns
  is a prefix of the code of another symbol.
\<close>

theorem C3_prefix_free:
  assumes "2 \<le> length freqTable"
  shows "\<exists>huffmanTree. buildHuffmanTree freqTable = Inr huffmanTree \<and>
           (\<forall>a b x y. generateHuffmanCodes (Some huffmanTree) [] Map.empty a = Some x \<and>
                      generateHuffmanCodes (Some huffmanTree) [] Map.empty b = Some y \<and> a \<noteq> b
                      \<longrightarrow> \<not> prefix x y)"
proof -
  from assms have "freqTable \<noteq> []" by auto
  then obtain t where t: "buildHuffmanTree freqTable = Inr t" "full_tree t" "internal_marked t"
    using buildHuffmanTree_props [of freqTable] by blast
  have "\<not> prefix x y"
    if "generateHuffmanCodes (Some t) [] Map.empty a = Some x"
       "generateHuffmanCodes (Some t) [] Map.empty b = Some y" "a \<noteq> b" for a b x y
  proof -
    have "(a, x) \<in> set (code_paths (Some t) [])" "(b, y) \<in> set (code_paths (Some t) [])"
      using that(1,2) foldl_store_cases [of Map.empty "code_paths (Some t) []"]
      by (auto simp: generateHuffmanCodes_paths)
    then show ?thesis
      using code_paths_prefix_free [OF t(2,3) _ _ that(3)] by blast
  qed
  with t(1) show ?thesis by blast
qed

theorem C3_prefix_free_witness:
  "2 \<le> length [(CHR ''a'', 5 :: int), (CHR ''b'', 2), (CHR ''c'', 1)] \<and>
   (\<exists>huffmanTree. buildHuffmanTree [(CHR ''a'', 5), (CHR ''b'', 2), (CHR ''c'', 1)] = Inr huffmanTree \<and>
      (\<forall>a b x y. generateHuffmanCodes (Some huffmanTree) [] Map.empty a = Some x \<and>
                 generateHuffmanCodes (Some huffmanTree) [] Map.empty b = Some y \<and> a \<noteq> b
                 \<longrightarrow> \<not> prefix x y))"
  using C3_prefix_free [of "[(CHR ''a'', 5), (CHR ''b'', 2), (CHR ''c'', 1)]"] by simp

subsection \<open>The decoder's walk\<close>

lemma full_tree_children:
  "full_tree t \<Longrightarrow> left t \<noteq> None \<or> right t \<noteq> None \<Longrightarrow>
   \<exists>l r. left t = Some l \<and> right t = Some r \<and> full_tree l \<and> full_tree r"
  by (induction t rule: full_tree.induct) auto

lemma decode_loop_no_null:
  assumes root: "full_tree huffmanTree" "left huffmanTree \<noteq> None"
  shows "full_tree cur \<Longrightarrow> left cur \<noteq> None \<Longrightarrow>
         \<exists>res. decode_loop huffmanTree (Some cur) decodedCount totalChars encoded out = Inr res"
proof (induction encoded arbitrary: cur decodedCount out)
  case Nil
  show ?case by simp
next
  case (Cons b encoded)
  obtain l r where lr: "left cur = Some l" "right cur = Some r" "full_tree l" "full_tree r"
    using full_tree_children [of cur] Cons.prems by blast
  define nxt where "nxt = (if b = CHR ''0'' then l else r)"
  have nxt: "(if b = CHR ''0'' then left cur else right cur) = Some nxt" "full_tree nxt"
    using lr by (auto simp: nxt_def)
  show ?case
  proof (cases "left nxt = None \<and> right nxt = None")
    case True
    show ?thesis
    proof (cases "int32 (decodedCount + 1) = totalChars")
      case True
      with \<open>left nxt = None \<and> right nxt = None\<close> nxt show ?thesis by simp
    next
      case False
      with True nxt Cons.IH [OF root, of "int32 (decodedCount + 1)" "out @ [data nxt]"]
      show ?thesis by simp
    qed
  next
    case False
    then have "left nxt \<noteq> None"
      using full_tree_children [OF nxt(2)] by auto
    from Cons.IH [OF nxt(2) this, of decodedCount out] obtain res where
      "decode_loop huffmanTree (Some nxt) decodedCount totalChars encoded out = Inr res" by blast
    with False nxt(1) show ?thesis
      by auto
  qed
qed

text \<open>
  Claim C9. For every frequency table with at least two symbols (one entry each in the
  \<^verbatim>\<open>std::map\<close>), the tree that \<^verbatim>\<open>buildHuffmanTree\<close> returns has a root with two
  children, every node in it is a leaf or has two children, and the decoder's walk over
  any bit string, with any symbol count, never dereferences a null cursor.
\<close>

theorem C9_cursor_never_null:
  assumes "2 \<le> length freqTable"
  shows "\<exists>huffmanTree l r. buildHuffmanTree freqTable = Inr huffmanTree \<and>
           left huffmanTree = Some l \<and> right huffmanTree = Some r \<and> full_tree huffmanTree \<and>
           (\<forall>totalChars encoded.
              decode_loop huffmanTree (Some huffmanTree) 0 totalChars encoded [] \<noteq> Inl NullDereference)"
proof -
  from assms have "freqTable \<noteq> []" "length freqTable > 1" by auto
  then obtain t where t: "buildHuffmanTree freqTable = Inr t" "full_tree t" "left t \<noteq> None"
    using buildHuffmanTree_props [of freqTable] by blast
  obtain l r where lr: "left t = Some l" "right t = Some r"
    using full_tree_children [OF t(2)] t(3) by blast
  have "decode_loop t (Some t) 0 totalChars encoded [] \<noteq> Inl NullDereference" for totalChars encoded
    using decode_loop_no_null [OF t(2,3) t(2,3), of 0 totalChars encoded "[]"] by auto
  with t lr show ?thesis by blast
qed

theorem C9_cursor_never_null_witness:
  "2 \<le> length [(CHR ''x'', 3 :: int), (CHR ''y'', 3)] \<and>
   (\<exists>huffmanTree l r. buildHuffmanTree [(CHR ''x'', 3), (CHR ''y'', 3)] = Inr huffmanTree \<and>
           left huffmanTree = Some l \<and> right huffmanTree = Some r \<and> full_tree huffmanTree \<and>
           (\<forall>totalChars encoded.
              decode_loop huffmanTree (Some huffmanTree) 0 totalChars encoded [] \<noteq> Inl NullDereference))"
  using C9_cursor_never_null [of "[(CHR ''x'', 3), (CHR ''y'', 3)]"] by simp

subsection \<open>Inputs that do not survive the round trip\<close>

text \<open>
  Claim C6. The claim fails on the artifact that compression writes for a single-symbol
  input: the header of the artifact for \<open>AAA\<close> declares three symbols, its payload is
  empty, and the decoder emits no symbol at all. (On a tree with two or more leaves the
  stop condition does what the claim says: lemma \<open>decoder_stops_at_count\<close> below.)
\<close>

theorem C6_single_symbol_artifact:
  "compressFile (Some ''AAA'') = Inr ''1\<newline>65 3\<newline>'' \<and>
   read_header ''1\<newline>65 3\<newline>'' = Inr ([(CHR ''A'', 3)], Some []) \<and>
   decompressFile (Some ''1\<newline>65 3\<newline>'') = Inr []"
  by code_simp

text \<open>
  Claim C2. The claim fails on 1000 copies of the byte 0x41: the tree is a single leaf,
  \<^verbatim>\<open>generateHuffmanCodes\<close> gives the byte the empty code, the artifact is the header
  alone, and decoding it yields the empty file.
\<close>

theorem C2_single_symbol_input:
  "buildHuffmanTree (buildFrequencyTable (replicate 1000 (CHR 0x41))) =
     Inr (HuffmanNode (CHR 0x41) 1000 None None) \<and>
   generateHuffmanCodes (Some (HuffmanNode (CHR 0x41) 1000 None None)) [] Map.empty (CHR 0x41) = Some [] \<and>
   compressFile (Some (replicate 1000 (CHR 0x41))) = Inr ''1\<newline>65 1000\<newline>'' \<and>
   decompressFile (Some ''1\<newline>65 1000\<newline>'') = Inr []"
  by code_simp

text \<open>
  Claim C1. The round trip fails on two kinds of input. A single-symbol input comes back
  empty. An input with the byte 0x00 among other bytes comes back changed, because the
  zero byte has no code: the two bytes 0x00, \<open>a\<close> come back as \<open>a\<close>, 0x00. (On every
  other input of fewer than \<open>2\<^sup>3\<^sup>1\<close> bytes the round trip holds: lemma \<open>round_trip\<close>
  below.)
\<close>

theorem C1_round_trip_fails:
  "compressFile (Some ''zz'') = Inr ''1\<newline>122 2\<newline>'' \<and>
   decompressFile (Some ''1\<newline>122 2\<newline>'') = Inr [] \<and>
   compressFile (Some [CHR 0x00, CHR ''a'']) = Inr (''2\<newline>0 1\<newline>97 1\<newline>'' @ [CHR 0x80]) \<and>
   decompressFile (Some (''2\<newline>0 1\<newline>97 1\<newline>'' @ [CHR 0x80])) = Inr [CHR ''a'', CHR 0x00]"
  by code_simp

subsection \<open>Encoding and bit packing\<close>

lemma code_of_simps:
  "huffmanCodes c = None \<Longrightarrow> code_of huffmanCodes c = []"
  "huffmanCodes c = Some code \<Longrightarrow> code_of huffmanCodes c = code"
  by (simp_all add: code_of_def subscript_def)

lemma code_of_after_subscript: "code_of (snd (subscript huffmanCodes c)) = code_of huffmanCodes"
  by (rule ext) (simp add: code_of_def subscript_def split: option.splits)

lemma encode_loop_concat:
  "encode_loop content huffmanCodes encoded = encoded @ concat (map (code_of huffmanCodes) content)"
proof (induction content arbitrary: huffmanCodes encoded)
  case Nil
  show ?case by simp
next
  case (Cons c content)
  obtain code m where sub: "subscript huffmanCodes c = (code, m)"
    by (cases "subscript huffmanCodes c")
  have "code = code_of huffmanCodes c" "code_of m = code_of huffmanCodes"
    using sub code_of_after_subscript [of huffmanCodes c] by (simp_all add: code_of_def)
  with Cons [of m "encoded @ code"] sub show ?case by simp
qed

lemma generated_codes_are_bits:
  "generateHuffmanCodes (Some t) [] Map.empty c = Some code \<Longrightarrow> list_all is_bit code"
proof -
  assume "generateHuffmanCodes (Some t) [] Map.empty c = Some code"
  then have "(c, code) \<in> set (code_paths (Some t) [])"
    using foldl_store_cases [of Map.empty "code_paths (Some t) []" c code]
    by (simp add: generateHuffmanCodes_paths)
  from code_paths_bits [OF this] show ?thesis
    by (auto simp: list_all_iff is_bit_def)
qed

lemma encode_loop_bits:
  "list_all is_bit (encode_loop content (generateHuffmanCodes (Some t) [] Map.empty) [])"
proof -
  have "list_all is_bit (code_of (generateHuffmanCodes (Some t) [] Map.empty) c)" for c
    by (cases "generateHuffmanCodes (Some t) [] Map.empty c")
       (auto simp: code_of_simps dest: generated_codes_are_bits)
  then show ?thesis
    by (simp add: encode_loop_concat list_all_iff)
qed

lemma round_up_8:
  fixes n :: nat
  shows "(n + 7) div 8 * 8 = (if n mod 8 = 0 then n else n + (8 - n mod 8))"
proof -
  define q r where "q = n div 8" and "r = n mod 8"
  have n: "n = 8 * q + r" and r: "r < 8" by (simp_all add: q_def r_def)
  have "(n + 7) div 8 = q + (r + 7) div 8"
    unfolding n by (simp add: add.assoc)
  moreover have "(r + 7) div 8 = (if r = 0 then 0 else 1)"
    using r by (auto intro: div_nat_eqI)
  ultimately have "(n + 7) div 8 * 8 = (if r = 0 then 8 * q else 8 * q + 8)"
    by simp
  then show ?thesis
    using n r unfolding r_def [symmetric] by auto
qed

lemma add_padding_props:
  "\<exists>padding < 8. add_padding encoded = encoded @ replicate padding (CHR ''0'') \<and>
     length (add_padding encoded) = (length encoded + 7) div 8 * 8"
proof (cases "length encoded mod 8 = 0")
  case True
  then have "add_padding encoded = encoded @ replicate 0 (CHR ''0'')"
    by (simp add: add_padding_def)
  moreover have "length (add_padding encoded) = (length encoded + 7) div 8 * 8"
    using True round_up_8 [of "length encoded"] by (simp add: add_padding_def)
  ultimately show ?thesis by (intro exI [of _ 0]) simp
next
  case False
  let ?p = "8 - length encoded mod 8"
  have "nat (8 - int (length encoded mod 8)) = ?p" by simp
  then have eq: "add_padding encoded = encoded @ replicate ?p (CHR ''0'')"
    using False by (simp add: add_padding_def Let_def)
  have lt: "?p < 8" using False by simp
  have "length (add_padding encoded) = (length encoded + 7) div 8 * 8"
    using round_up_8 [of "length encoded"] False by (simp add: eq)
  with eq lt show ?thesis by (intro exI [of _ ?p]) simp
qed

lemma bits_value_snoc: "bits_value (str @ [ch]) = 2 * bits_value str + (if ch = CHR ''1'' then 1 else 0)"
  by (simp add: bits_value_def)

lemma bits_string_Suc:
  "bits_string (Suc k) n = bits_string k (n div 2) @ [if odd n then CHR ''1'' else CHR ''0'']"
proof -
  have "rev [0..<Suc k] = map Suc (rev [0..<k]) @ [0]"
    by (simp add: map_Suc_upt rev_map [symmetric] upt_conv_Cons del: upt_Suc)
  then show ?thesis
    by (simp add: bits_string_def bit_Suc bit_0 comp_def)
qed

lemma bits_string_value:
  "list_all is_bit str \<Longrightarrow> bits_string (length str) (bits_value str) = str \<and> bits_value str < 2 ^ length str"
proof (induction str rule: rev_induct)
  case Nil
  show ?case by (simp add: bits_string_def bits_value_def)
next
  case (snoc ch str)
  then have ih: "bits_string (length str) (bits_value str) = str" "bits_value str < 2 ^ length str"
    and ch: "ch = CHR ''0'' \<or> ch = CHR ''1''"
    by (auto simp: is_bit_def)
  from ch show ?case
  proof
    assume "ch = CHR ''0''"
    then show ?thesis using ih by (simp add: bits_value_snoc bits_string_Suc)
  next
    assume "ch = CHR ''1''"
    then show ?thesis using ih by (simp add: bits_value_snoc bits_string_Suc)
  qed
qed

lemma bitset8_to_string_bits: "bitset8_to_string byte = bits_string 8 (of_char byte)"
proof -
  have "rev [0..<8] = [7, 6, 5, 4, 3, 2, 1, 0::nat]"
    by (simp add: upt_rec [of _ 8] upt_rec [of _ 7] upt_rec [of _ 6] upt_rec [of _ 5] upt_rec [of _ 4]  upt_rec [of _ 3]  upt_rec [of _ 2]  upt_rec [of _ 1])
  then show ?thesis
    by (simp add: bitset8_to_string_def bits_string_def)
qed

lemma bitset8_roundtrip:
  assumes "list_all is_bit str" "length str = 8"
  shows "\<exists>n. bitset8_of_string str = Inr n \<and> bitset8_to_string (char_of n) = str"
proof -
  have v: "bits_string 8 (bits_value str) = str" "bits_value str < 256"
    using bits_string_value [OF assms(1)] assms(2) by simp_all
  have "bitset8_of_string str = Inr (bits_value str)"
    using assms by (simp add: bitset8_of_string_def bits_value_def is_bit_def [abs_def])
  moreover have "(of_char (char_of (bits_value str)) :: nat) = bits_value str"
    using v(2) by simp
  ultimately show ?thesis
    using v(1) by (simp add: bitset8_to_string_bits)
qed

lemma write_compressed_bytes:
  "list_all is_bit encoded \<Longrightarrow> i \<le> length encoded \<Longrightarrow> 8 dvd (length encoded - i) \<Longrightarrow>
   \<exists>bytes. write_compressed encoded i out = Inr (out @ bytes) \<and>
           read_compressed bytes = drop i encoded \<and> 8 * length bytes = length encoded - i"
proof (induction encoded i out rule: write_compressed.induct)
  case (1 encoded i out)
  show ?case
  proof (cases "i < length encoded")
    case False
    then have "write_compressed encoded i out = Inr out"
      by (subst write_compressed.simps) simp
    with False "1.prems" show ?thesis by (simp add: read_compressed_def)
  next
    case True
    let ?chunk = "take 8 (drop i encoded)"
    have ge: "8 \<le> length encoded - i"
      using True "1.prems"(3) by (intro dvd_imp_le) simp_all
    then have len: "length ?chunk = 8" by simp
    have "set ?chunk \<subseteq> set encoded"
      by (meson set_take_subset set_drop_subset subset_trans)
    then have bits: "list_all is_bit ?chunk"
      using "1.prems"(1) unfolding list_all_iff by blast
    obtain n where n: "bitset8_of_string ?chunk = Inr n" "bitset8_to_string (char_of n) = ?chunk"
      using bitset8_roundtrip [OF bits len] by blast
    have le: "i + 8 \<le> length encoded" using ge True by simp
    have "8 dvd (length encoded - i - 8)"
      using dvd_diff_nat [of 8 "length encoded - i" 8] "1.prems"(3) by simp
    then have dv: "8 dvd (length encoded - (i + 8))" by simp
    obtain bytes where bytes:
      "write_compressed encoded (i + 8) (out @ [char_of n]) = Inr ((out @ [char_of n]) @ bytes)"
      "read_compressed bytes = drop (i + 8) encoded" "8 * length bytes = length encoded - (i + 8)"
      using "1.IH" [OF True n(1) "1.prems"(1) le dv] by blast
    have "write_compressed encoded i out = Inr (out @ char_of n # bytes)"
      using True n(1) bytes(1) by (subst write_compressed.simps) simp
    moreover have "read_compressed (char_of n # bytes) = drop i encoded"
    proof -
      have "read_compressed (char_of n # bytes) = ?chunk @ drop (i + 8) encoded"
        using n(2) bytes(2) by (simp add: read_compressed_def)
      also have "drop (i + 8) encoded = drop 8 (drop i encoded)"
        by (simp add: add.commute)
      also have "?chunk @ drop 8 (drop i encoded) = drop i encoded"
        by (rule append_take_drop_id)
      finally show ?thesis .
    qed
    moreover have "8 * length (char_of n # bytes) = length encoded - i"
      using bytes(3) ge by simp
    ultimately show ?thesis by blast
  qed
qed

lemma length_bitset8_to_string [simp]: "length (bitset8_to_string byte) = 8"
  by (simp add: bitset8_to_string_def)

lemma nth_bits_string:
  "j < k \<Longrightarrow> bits_string k n ! j = (if bit n (k - Suc j) then CHR ''1'' else CHR ''0'')"
  by (simp add: bits_string_def rev_nth)

lemma nth_bitset8_to_string:
  "j < 8 \<Longrightarrow> bitset8_to_string byte ! j = (if bit (of_char byte :: nat) (7 - j) then CHR ''1'' else CHR ''0'')"
  using nth_bits_string [of j 8 "of_char byte"] by (simp add: bitset8_to_string_bits)

lemma nth_read_compressed:
  "i < length bytes \<Longrightarrow> j < 8 \<Longrightarrow> read_compressed bytes ! (8 * i + j) = bitset8_to_string (bytes ! i) ! j"
proof (induction bytes arbitrary: i)
  case Nil
  then show ?case by simp
next
  case (Cons b bytes)
  show ?case
  proof (cases i)
    case 0
    with Cons.prems show ?thesis
      by (simp add: read_compressed_def nth_append)
  next
    case (Suc k)
    with Cons.prems have "read_compressed bytes ! (8 * k + j) = bitset8_to_string (bytes ! k) ! j"
      using Cons.IH [of k] by simp
    moreover have "read_compressed (b # bytes) ! (8 * i + j) = read_compressed bytes ! (8 * k + j)"
      using Suc by (simp add: read_compressed_def nth_append)
    ultimately show ?thesis using Suc by simp
  qed
qed

lemma compressFile_payload:
  assumes "content \<noteq> []"
  shows "\<exists>huffmanTree payload padding.
           buildHuffmanTree (buildFrequencyTable content) = Inr huffmanTree \<and>
           (let huffmanCodes = generateHuffmanCodes (Some huffmanTree) [] Map.empty;
                encoded = encode_loop content huffmanCodes []
            in compressFile (Some content) = Inr (write_header (buildFrequencyTable content) @ payload) \<and>
               write_compressed (add_padding encoded) 0 [] = Inr payload \<and>
               read_compressed payload = add_padding encoded \<and>
               length encoded =
                 sum_list (map (\<lambda>c. case huffmanCodes c of None \<Rightarrow> 0 | Some code \<Rightarrow> length code)
                                content) \<and>
               8 * length payload = (length encoded + 7) div 8 * 8 \<and>
               padding < 8 \<and> add_padding encoded = encoded @ replicate padding (CHR ''0'') \<and>
               (\<forall>i<length payload. \<forall>j<8.
                  bit (of_char (payload ! i) :: nat) (7 - j) \<longleftrightarrow>
                  add_padding encoded ! (8 * i + j) = CHR ''1''))"
proof -
  have "buildFrequencyTable content \<noteq> []"
    using buildFrequencyTable_keys(2) [of content] assms by auto
  then obtain t where t: "buildHuffmanTree (buildFrequencyTable content) = Inr t"
    using buildHuffmanTree_props by blast
  let ?codes = "generateHuffmanCodes (Some t) [] Map.empty"
  let ?encoded = "encode_loop content ?codes []"
  obtain padding where pad: "padding < 8" "add_padding ?encoded = ?encoded @ replicate padding (CHR ''0'')"
    "length (add_padding ?encoded) = (length ?encoded + 7) div 8 * 8"
    using add_padding_props [of ?encoded] by blast
  have "list_all is_bit ?encoded"
    by (rule encode_loop_bits)
  moreover have "list_all is_bit (replicate padding (CHR ''0''))"
    by (simp add: list_all_iff is_bit_def)
  ultimately have bits: "list_all is_bit (add_padding ?encoded)"
    unfolding pad(2) by simp
  have "8 dvd length (add_padding ?encoded)" unfolding pad(3) by simp
  then obtain payload where payload: "write_compressed (add_padding ?encoded) 0 [] = Inr payload"
    "read_compressed payload = add_padding ?encoded" "8 * length payload = length (add_padding ?encoded)"
    using write_compressed_bytes [OF bits, of 0 "[]"] by auto
  have plen: "8 * length payload = (length ?encoded + 7) div 8 * 8"
    using payload(3) pad(3) by simp
  have "length (code_of ?codes c) = (case ?codes c of None \<Rightarrow> 0 | Some code \<Rightarrow> length code)" for c
    by (cases "?codes c") (simp_all add: code_of_simps)
  then have len: "length ?encoded =
      sum_list (map (\<lambda>c. case ?codes c of None \<Rightarrow> 0 | Some code \<Rightarrow> length code) content)"
    by (simp add: encode_loop_concat length_concat comp_def)
  have msb: "\<forall>i<length payload. \<forall>j<8. bit (of_char (payload ! i) :: nat) (7 - j) \<longleftrightarrow>
               add_padding ?encoded ! (8 * i + j) = CHR ''1''"
  proof (intro allI impI)
    fix i j :: nat assume ij: "i < length payload" "j < 8"
    have "add_padding ?encoded ! (8 * i + j) = bitset8_to_string (payload ! i) ! j"
      using nth_read_compressed [OF ij] payload(2) by simp
    then show "bit (of_char (payload ! i) :: nat) (7 - j) \<longleftrightarrow>
               add_padding ?encoded ! (8 * i + j) = CHR ''1''"
      using nth_bitset8_to_string [OF ij(2), of "payload ! i"] by simp
  qed
  have cf: "compressFile (Some content) = Inr (write_header (buildFrequencyTable content) @ payload)"
    using assms t payload(1) by (simp add: compressFile_def Let_def)
  show ?thesis
    unfolding Let_def using t cf payload(1,2) len plen pad(1,2) msb by blast
qed

text \<open>
  Claim C5. For every non-empty input and its code table, the payload written after the
  header has, in bits, the sum over the input bytes of the length of the code that the
  table holds for the byte (nothing for a byte without an entry), rounded up to the
  next multiple of 8; the bits added at the end are zeros, fewer than eight; and bit
  \<open>j\<close> of the bit string of byte \<open>i\<close> is bit \<open>7 - j\<close> of that byte, the most
  significant first.
\<close>

theorem C5_bit_packing:
  assumes "content \<noteq> []"
  shows "\<exists>huffmanTree payload padding.
           buildHuffmanTree (buildFrequencyTable content) = Inr huffmanTree \<and>
           (let huffmanCodes = generateHuffmanCodes (Some huffmanTree) [] Map.empty;
                encoded = encode_loop content huffmanCodes []
            in compressFile (Some content) = Inr (write_header (buildFrequencyTable content) @ payload) \<and>
               write_compressed (add_padding encoded) 0 [] = Inr payload \<and>
               length encoded =
                 sum_list (map (\<lambda>c. case huffmanCodes c of None \<Rightarrow> 0 | Some code \<Rightarrow> length code)
                                content) \<and>
               8 * length payload = (length encoded + 7) div 8 * 8 \<and>
               padding < 8 \<and> add_padding encoded = encoded @ replicate padding (CHR ''0'') \<and>
               (\<forall>i<length payload. \<forall>j<8.
                  bit (of_char (payload ! i) :: nat) (7 - j) \<longleftrightarrow>
                  add_padding encoded ! (8 * i + j) = CHR ''1''))"
  using compressFile_payload [OF assms] unfolding Let_def by blast

theorem C5_bit_packing_witness:
  "''abca'' \<noteq> [] \<and>
   (\<exists>huffmanTree payload padding.
           buildHuffmanTree (buildFrequencyTable ''abca'') = Inr huffmanTree \<and>
           (let huffmanCodes = generateHuffmanCodes (Some huffmanTree) [] Map.empty;
                encoded = encode_loop ''abca'' huffmanCodes []
            in compressFile (Some ''abca'') = Inr (write_header (buildFrequencyTable ''abca'') @ payload) \<and>
               write_compressed (add_padding encoded) 0 [] = Inr payload \<and>
               length encoded =
                 sum_list (map (\<lambda>c. case huffmanCodes c of None \<Rightarrow> 0 | Some code \<Rightarrow> length code)
                                ''abca'') \<and>
               8 * length payload = (length encoded + 7) div 8 * 8 \<and>
               padding < 8 \<and> add_padding encoded = encoded @ replicate padding (CHR ''0'') \<and>
               (\<forall>i<length payload. \<forall>j<8.
                  bit (of_char (payload ! i) :: nat) (7 - j) \<longleftrightarrow>
                  add_padding encoded ! (8 * i + j) = CHR ''1'')))"
proof -
  have ne: "''abca'' \<noteq> []" by simp
  show ?thesis by (rule conjI [OF ne C5_bit_packing [OF ne]])
qed

subsection \<open>The zero byte\<close>

lemma generateHuffmanCodes_zero:
  "generateHuffmanCodes root code huffmanCodes (CHR 0x00) = huffmanCodes (CHR 0x00)"
proof -
  have "CHR 0x00 \<notin> fst ` set (code_paths root code)"
    using code_paths_nonzero [of "CHR 0x00" _ root code] by auto
  then show ?thesis
    by (simp add: generateHuffmanCodes_paths foldl_store_no_key)
qed

lemma concat_codes_filter:
  "code_of huffmanCodes z = [] \<Longrightarrow>
   concat (map (code_of huffmanCodes) (filter (\<lambda>c. c \<noteq> z) content)) =
   concat (map (code_of huffmanCodes) content)"
  by (induction content) auto

lemma buildFrequencyTable_length: "card (set content) \<le> length (buildFrequencyTable content)"
proof -
  have "card (set content) = card (fst ` set (buildFrequencyTable content))"
    by (simp add: buildFrequencyTable_keys(2))
  also have "\<dots> \<le> card (set (buildFrequencyTable content))"
    by (rule card_image_le) simp
  also have "\<dots> \<le> length (buildFrequencyTable content)"
    by (rule card_length)
  finally show ?thesis .
qed

text \<open>
  Claim C10. The nodes that \<^verbatim>\<open>buildHuffmanTree\<close> creates for a combination carry the
  zero byte, which \<^verbatim>\<open>generateHuffmanCodes\<close> takes as "no symbol". So for every input
  that contains the byte 0x00 among at least two distinct bytes, the code table has no
  entry for 0x00, \<^verbatim>\<open>huffmanCodes[c]\<close> yields the empty string for it, and the encoded
  bit string is the one of the input with its zero bytes removed.
\<close>

theorem C10_zero_byte_has_no_code:
  assumes "CHR 0x00 \<in> set content" and "2 \<le> card (set content)"
  shows "\<exists>huffmanTree l r.
           buildHuffmanTree (buildFrequencyTable content) = Inr huffmanTree \<and>
           left huffmanTree = Some l \<and> right huffmanTree = Some r \<and> data huffmanTree = CHR 0x00 \<and>
           internal_marked huffmanTree \<and>
           (let huffmanCodes = generateHuffmanCodes (Some huffmanTree) [] Map.empty
            in huffmanCodes (CHR 0x00) = None \<and>
               fst (subscript huffmanCodes (CHR 0x00)) = [] \<and>
               encode_loop content huffmanCodes [] =
                 encode_loop (filter (\<lambda>c. c \<noteq> CHR 0x00) content) huffmanCodes [])"
proof -
  have len: "2 \<le> length (buildFrequencyTable content)"
    using assms(2) buildFrequencyTable_length [of content] by simp
  then have "buildFrequencyTable content \<noteq> []" by auto
  then obtain t where t: "buildHuffmanTree (buildFrequencyTable content) = Inr t"
    "full_tree t" "internal_marked t" "left t \<noteq> None"
    using buildHuffmanTree_props [of "buildFrequencyTable content"] len by auto
  obtain l r where lr: "left t = Some l" "right t = Some r"
    using full_tree_children [OF t(2)] t(4) by blast
  have d: "data t = CHR 0x00"
    using t(3) lr by (cases t) auto
  let ?codes = "generateHuffmanCodes (Some t) [] Map.empty"
  have none: "?codes (CHR 0x00) = None"
    by (simp add: generateHuffmanCodes_zero)
  then have sub: "fst (subscript ?codes (CHR 0x00)) = []"
    by (simp add: subscript_def)
  then have "code_of ?codes (CHR 0x00) = []" by (simp add: code_of_def)
  then have enc: "encode_loop content ?codes [] =
                  encode_loop (filter (\<lambda>c. c \<noteq> CHR 0x00) content) ?codes []"
    by (simp add: encode_loop_concat concat_codes_filter)
  show ?thesis
    unfolding Let_def using t(1,3) lr d none sub enc by blast
qed

theorem C10_zero_byte_has_no_code_witness:
  "CHR 0x00 \<in> set [CHR 0x00, CHR ''a'', CHR 0x00] \<and> 2 \<le> card (set [CHR 0x00, CHR ''a'', CHR 0x00]) \<and>
   (\<exists>huffmanTree l r.
           buildHuffmanTree (buildFrequencyTable [CHR 0x00, CHR ''a'', CHR 0x00]) = Inr huffmanTree \<and>
           left huffmanTree = Some l \<and> right huffmanTree = Some r \<and> data huffmanTree = CHR 0x00 \<and>
           internal_marked huffmanTree \<and>
           (let huffmanCodes = generateHuffmanCodes (Some huffmanTree) [] Map.empty
            in huffmanCodes (CHR 0x00) = None \<and>
               fst (subscript huffmanCodes (CHR 0x00)) = [] \<and>
               encode_loop [CHR 0x00, CHR ''a'', CHR 0x00] huffmanCodes [] =
                 encode_loop (filter (\<lambda>c. c \<noteq> CHR 0x00) [CHR 0x00, CHR ''a'', CHR 0x00]) huffmanCodes []))"
proof -
  have h1: "CHR 0x00 \<in> set [CHR 0x00, CHR ''a'', CHR 0x00]" by simp
  have h2: "2 \<le> card (set [CHR 0x00, CHR ''a'', CHR 0x00])" by (simp add: card_insert_if)
  show ?thesis by (intro conjI h1 h2 C10_zero_byte_has_no_code [OF h1 h2])
qed

subsection \<open>Reading back the header\<close>

lemma digit_char:
  "d < 10 \<Longrightarrow> isdigit (char_of (48 + d)) \<and> (of_char (char_of (48 + d)) :: int) - 48 = int d"
proof -
  assume d: "d < 10"
  then have n: "(of_char (char_of (48 + d)) :: nat) = 48 + d" by simp
  have "(of_char (char_of (48 + d)) :: int) = int (of_char (char_of (48 + d)))"
    by (simp only: of_nat_of_char)
  with n d show ?thesis by (simp add: isdigit_def)
qed

lemma show_nat_digits: "list_all isdigit (show_nat n) \<and> show_nat n \<noteq> []"
proof (induction n rule: show_nat.induct)
  case (1 n)
  show ?case
  proof (cases "n < 10")
    case True
    then show ?thesis
      using digit_char [of n] by (subst (1 2) show_nat.simps) simp
  next
    case False
    then have "n mod 10 < 10" by simp
    with False 1 show ?thesis
      using digit_char [of "n mod 10"] by (subst (1 2) show_nat.simps) simp
  qed
qed

lemma read_digits_show_nat:
  "read_digits acc (show_nat n @ rest) = read_digits (acc * 10 ^ length (show_nat n) + int n) rest"
proof (induction n arbitrary: acc rest rule: show_nat.induct)
  case (1 n)
  show ?case
  proof (cases "n < 10")
    case True
    then have s: "show_nat n = [char_of (48 + n)]"
      by (subst show_nat.simps) simp
    show ?thesis
      using digit_char [OF True] by (simp add: s mult.commute)
  next
    case False
    then have s: "show_nat n = show_nat (n div 10) @ [char_of (48 + n mod 10)]"
      by (subst show_nat.simps) simp
    have d: "isdigit (char_of (48 + n mod 10))"
      "(of_char (char_of (48 + n mod 10)) :: int) - 48 = int (n mod 10)"
      using digit_char [of "n mod 10"] by simp_all
    let ?a = "acc * 10 ^ length (show_nat (n div 10)) + int (n div 10)"
    have "read_digits acc (show_nat n @ rest) = read_digits ?a (char_of (48 + n mod 10) # rest)"
      using "1.IH" [OF False, of acc "char_of (48 + n mod 10) # rest"] by (simp add: s)
    also have "\<dots> = read_digits (10 * ?a + int (n mod 10)) rest"
      using d by simp
    also have "10 * ?a + int (n mod 10) = acc * 10 ^ length (show_nat n) + int n"
    proof -
      have "int n = 10 * int (n div 10) + int (n mod 10)"
        by (metis mult_div_mod_eq of_nat_add of_nat_mult of_nat_numeral)
      then show ?thesis by (simp add: s algebra_simps)
    qed
    finally show ?thesis .
  qed
qed

lemma read_digits_stop: "stops_digits rest \<Longrightarrow> read_digits m rest = (m, rest) \<and> rest \<noteq> []"
  by (cases rest) (simp_all add: stops_digits_def)

lemma isdigit_not_sign: "isdigit c \<Longrightarrow> \<not> isspace c \<and> c \<noteq> CHR ''-'' \<and> c \<noteq> CHR ''+''"
  by (auto simp: isdigit_def isspace_def)

lemma read_int_show_nat:
  assumes "stops_digits rest" "int n \<le> 2147483647"
  shows "read_int (Some (show_nat n @ rest)) = (Some (int n), Some rest)"
proof -
  obtain c cs where s: "show_nat n = c # cs" and c: "isdigit c"
    using show_nat_digits [of n] by (cases "show_nat n") auto
  have rd: "read_digits 0 ((c # cs) @ rest) = (int n, rest)" and ne: "rest \<noteq> []"
    using read_digits_show_nat [of 0 n rest] read_digits_stop [OF assms(1)] by (simp_all add: s)
  have "read_int (Some ((c # cs) @ rest)) = (Some (int n), Some rest)"
    using c isdigit_not_sign [OF c] rd ne assms(2)
    by (simp add: read_int_def Let_def)
  then show ?thesis by (simp add: s)
qed

lemma read_int_show_int:
  assumes "stops_digits rest" "- 2147483648 \<le> i" "i \<le> 2147483647"
  shows "read_int (Some (show_int i @ rest)) = (Some i, Some rest)"
proof (cases "i < 0")
  case False
  then show ?thesis
    using read_int_show_nat [OF assms(1), of "nat i"] assms(3) by (simp add: show_int_def)
next
  case True
  let ?n = "nat (- i)"
  obtain c cs where s: "show_nat ?n = c # cs" and c: "isdigit c"
    using show_nat_digits [of ?n] by (cases "show_nat ?n") auto
  have rd: "read_digits 0 ((c # cs) @ rest) = (int ?n, rest)" and ne: "rest \<noteq> []"
    using read_digits_show_nat [of 0 ?n rest] read_digits_stop [OF assms(1)] by (simp_all add: s)
  have "\<not> isspace (CHR ''-'')" by (simp add: isspace_def)
  then have "read_int (Some (CHR ''-'' # (c # cs) @ rest)) = (Some i, Some rest)"
    using c rd ne True assms(2) by (simp add: read_int_def Let_def)
  then show ?thesis using True by (simp add: show_int_def s)
qed

lemma read_int_skip_space: "isspace c \<Longrightarrow> read_int (Some (c # s)) = read_int (Some s)"
  by (simp add: read_int_def)

lemma char_of_char_to_int: "char_of (char_to_int c) = c"
proof -
  have "char_of (of_char c - (256::int)) = char_of (of_char c :: int)"
    by (metis char_of_mod_256 minus_mod_self2)
  then show ?thesis
    by (simp add: char_to_int_def Let_def)
qed

lemma char_to_int_range: "- 128 \<le> char_to_int c \<and> char_to_int c \<le> 127"
proof -
  have "(of_char c :: int) < 256" "0 \<le> (of_char c :: int)"
    using nat_of_char_less_256 [of c]
    by (metis of_nat_of_char of_nat_less_iff of_nat_numeral, metis of_nat_of_char of_nat_0_le_iff)
  then show ?thesis
    by (auto simp: char_to_int_def Let_def)
qed

lemma assign_append:
  "\<forall>x \<in> set m. char_to_int (fst x) < char_to_int c \<Longrightarrow> assign c f m = m @ [(c, f)]"
  by (induction c f m rule: assign.induct) auto

lemma write_header_lines:
  "write_header freqTable = show_nat (length freqTable) @ [CHR 0x0A] @ concat (map table_line freqTable)"
proof -
  have "(\<lambda>(c, f). show_int (char_to_int c) @ [CHR 0x20] @ show_int f @ [CHR 0x0A]) = table_line"
    by (rule ext) (simp add: table_line_def case_prod_beta)
  then show ?thesis by (simp add: write_header_def)
qed

lemma read_table_line:
  assumes "- 2147483648 \<le> f" "f \<le> 2147483647"
  shows "read_table (Suc n) (Some (table_line (c, f) @ rest)) charValue v acc =
         read_table n (Some rest) (Some (char_to_int c)) (Some f) (assign c f acc)"
proof -
  have r1: "read_int (Some (table_line (c, f) @ rest)) =
            (Some (char_to_int c), Some (CHR 0x20 # show_int f @ CHR 0x0A # rest))"
    using read_int_show_int [of "CHR 0x20 # show_int f @ CHR 0x0A # rest" "char_to_int c"]
      char_to_int_range [of c]
    by (simp add: table_line_def stops_digits_def isdigit_def)
  have r2: "read_int (Some (CHR 0x20 # show_int f @ CHR 0x0A # rest)) = (Some f, Some (CHR 0x0A # rest))"
    using read_int_show_int [of "CHR 0x0A # rest" f] assms
    by (simp add: read_int_skip_space isspace_def stops_digits_def isdigit_def)
  show ?thesis
    by (simp add: r1 r2 ignore_def char_of_char_to_int)
qed

lemma read_table_lines:
  "\<forall>p \<in> set es. - 2147483648 \<le> snd p \<and> snd p \<le> 2147483647 \<Longrightarrow> key_sorted (acc @ es) \<Longrightarrow>
   read_table (length es) (Some (concat (map table_line es) @ bytes)) charValue v acc =
     Inr (acc @ es, Some bytes)"
proof (induction es arbitrary: acc charValue v)
  case Nil
  show ?case by simp
next
  case (Cons p es)
  obtain c f where p: "p = (c, f)" by (cases p)
  have "\<forall>x \<in> set acc. char_to_int (fst x) < char_to_int c"
    using Cons.prems(2) by (auto simp: key_sorted_def p sorted_wrt_append)
  then have a: "assign c f acc = acc @ [p]"
    by (simp add: assign_append p)
  have "read_table (length (p # es)) (Some (concat (map table_line (p # es)) @ bytes)) charValue v acc =
        read_table (length es) (Some (concat (map table_line es) @ bytes))
          (Some (char_to_int c)) (Some f) (acc @ [p])"
    using read_table_line [of f "length es" c "concat (map table_line es) @ bytes" charValue v acc]
      Cons.prems(1)
    by (simp add: p a)
  also have "\<dots> = Inr ((acc @ [p]) @ es, Some bytes)"
    using Cons.IH [of "acc @ [p]" "Some (char_to_int c)" "Some f"] Cons.prems by simp
  finally show ?case by simp
qed

lemma read_header_write_header:
  assumes "key_sorted freqTable" "\<forall>p \<in> set freqTable. - 2147483648 \<le> snd p \<and> snd p \<le> 2147483647"
    and "int (length freqTable) \<le> 2147483647"
  shows "read_header (write_header freqTable @ bytes) = Inr (freqTable, Some bytes)"
proof -
  let ?rest = "concat (map table_line freqTable) @ bytes"
  have "read_int (Some (show_nat (length freqTable) @ CHR 0x0A # ?rest)) =
        (Some (int (length freqTable)), Some (CHR 0x0A # ?rest))"
    using read_int_show_nat [of "CHR 0x0A # ?rest" "length freqTable"] assms(3)
    by (simp add: stops_digits_def isdigit_def)
  moreover have "read_table (length freqTable) (Some ?rest) None None [] = Inr (freqTable, Some bytes)"
    using read_table_lines [of freqTable "[]" bytes None None] assms(1,2) by simp
  ultimately show ?thesis
    by (simp add: read_header_def write_header_lines ignore_def)
qed

text \<open>Whatever the input is, the table that is read has each key once.\<close>

lemma keys_assign: "fst ` set (assign c f m) = insert c (fst ` set m)"
  by (induction c f m rule: assign.induct) auto

lemma key_sorted_assign: "key_sorted m \<Longrightarrow> key_sorted (assign c f m)"
proof (induction c f m rule: assign.induct)
  case (1 c f)
  then show ?case by (simp add: key_sorted_def)
next
  case (2 c f k v m)
  show ?case
  proof (cases "c = k")
    case True
    with 2 show ?thesis by (auto simp: key_sorted_def)
  next
    case False
    note ck = this
    show ?thesis
    proof (cases "char_to_int c < char_to_int k")
      case True
      with 2 ck show ?thesis by (auto simp: key_sorted_def)
    next
      case False
      with ck have lt: "char_to_int k < char_to_int c"
        using char_to_int_inj [of c k] by force
      have ih: "key_sorted (assign c f m)"
        using 2 ck False by (simp add: key_sorted_def)
      have "\<forall>x \<in> set (assign c f m). char_to_int k < char_to_int (fst x)"
      proof
        fix x assume "x \<in> set (assign c f m)"
        then have "fst x \<in> insert c (fst ` set m)"
          using keys_assign [of c f m] by blast
        with lt "2.prems" show "char_to_int k < char_to_int (fst x)"
          by (auto simp: key_sorted_def)
      qed
      with ih ck False show ?thesis by (simp add: key_sorted_def)
    qed
  qed
qed

lemma read_table_sorted:
  "read_table n inFile charValue f acc = Inr (freqTable, rest) \<Longrightarrow> key_sorted acc \<Longrightarrow>
   key_sorted freqTable"
proof (induction n arbitrary: inFile charValue f acc)
  case 0
  then show ?case by simp
next
  case (Suc n)
  then show ?case
    by (auto simp: Let_def key_sorted_assign split: prod.splits option.splits)
qed

lemma read_header_sorted: "read_header file = Inr (freqTable, inFile) \<Longrightarrow> key_sorted freqTable"
  by (auto simp: read_header_def Let_def key_sorted_def split: prod.splits option.splits
      dest!: read_table_sorted)

subsection \<open>Decoding what was encoded\<close>

lemma leaf_paths_keys: "full_tree t \<Longrightarrow> map fst (leaf_paths t) = map fst (tree_leaves t)"
  by (induction t rule: full_tree.induct) (simp_all add: comp_def)

lemma code_paths_leaf_paths:
  "full_tree t \<Longrightarrow> internal_marked t \<Longrightarrow>
   code_paths (Some t) code =
     map (\<lambda>p. (fst p, code @ snd p)) (filter (\<lambda>p. fst p \<noteq> CHR 0x00) (leaf_paths t))"
proof (induction t arbitrary: code rule: full_tree.induct)
  case (1 d f)
  show ?case by simp
next
  case (2 d f l r)
  then have "d = CHR 0x00" "full_tree l" "internal_marked l" "full_tree r" "internal_marked r"
    by auto
  with "2.IH" [of "code @ ''0''"] "2.IH" [of "code @ ''1''"] show ?case
    by (simp add: filter_map comp_def)
next
  case (3 d f r)
  then show ?case by simp
next
  case (4 d f l)
  then show ?case by simp
qed

lemma foldl_store_distinct:
  "distinct (map fst ps) \<Longrightarrow> (k, v) \<in> set ps \<Longrightarrow> foldl store m ps k = Some v"
proof (induction ps arbitrary: m)
  case Nil
  then show ?case by simp
next
  case (Cons p ps)
  show ?case
  proof (cases "p = (k, v)")
    case True
    then have "k \<notin> fst ` set ps" using Cons.prems(1) by auto
    then show ?thesis
      using True by (simp add: foldl_store_no_key store_pair)
  next
    case False
    then show ?thesis using Cons by auto
  qed
qed

lemma generated_code_is_path:
  assumes "full_tree t" "internal_marked t" "distinct (map fst (leaf_paths t))"
    and "(k, p) \<in> set (leaf_paths t)" "k \<noteq> CHR 0x00"
  shows "generateHuffmanCodes (Some t) [] Map.empty k = Some p"
proof -
  let ?ps = "filter (\<lambda>p. fst p \<noteq> CHR 0x00) (leaf_paths t)"
  have cp: "code_paths (Some t) [] = ?ps"
    using code_paths_leaf_paths [OF assms(1,2), of "[]"] by simp
  have "distinct (map fst ?ps)"
    using assms(3) by (simp add: distinct_map_filter)
  moreover have "(k, p) \<in> set ?ps" using assms(4,5) by simp
  ultimately show ?thesis
    by (simp add: generateHuffmanCodes_paths cp foldl_store_distinct)
qed

lemma leaf_paths_empty_path:
  "full_tree t \<Longrightarrow> (k, []) \<in> set (leaf_paths t) \<Longrightarrow> left t = None \<and> right t = None \<and> data t = k"
  by (induction t rule: full_tree.induct) auto

lemma leaf_paths_of_leaf:
  "left t = None \<Longrightarrow> right t = None \<Longrightarrow> (k, p) \<in> set (leaf_paths t) \<Longrightarrow> p = []"
  by (cases t) auto

lemma decode_loop_step:
  "(if b = CHR ''0'' then left cur else right cur) = Some nxt \<Longrightarrow>
   decode_loop huffmanTree (Some cur) decodedCount totalChars (b # encoded) out =
     (if left nxt = None \<and> right nxt = None
      then if int32 (decodedCount + 1) = totalChars then Inr (out @ [data nxt])
           else decode_loop huffmanTree (Some huffmanTree) (int32 (decodedCount + 1)) totalChars
                  encoded (out @ [data nxt])
      else decode_loop huffmanTree (Some nxt) decodedCount totalChars encoded out)"
  by simp

text \<open>Walking the path of a leaf emits its symbol and counts it.\<close>

lemma decode_loop_walk:
  "full_tree cur \<Longrightarrow> (k, p) \<in> set (leaf_paths cur) \<Longrightarrow> p \<noteq> [] \<Longrightarrow>
   decode_loop huffmanTree (Some cur) decodedCount totalChars (p @ rest) out =
     (if int32 (decodedCount + 1) = totalChars then Inr (out @ [k])
      else decode_loop huffmanTree (Some huffmanTree) (int32 (decodedCount + 1)) totalChars
             rest (out @ [k]))"
proof (induction cur arbitrary: p rule: full_tree.induct)
  case (1 d f)
  then show ?case by simp
next
  case (2 d f l r)
  let ?cur = "HuffmanNode d f (Some l) (Some r)"
  from "2.prems"(2) obtain b q nxt where
    bq: "p = b # q" "(k, q) \<in> set (leaf_paths nxt)" "full_tree nxt"
      "(if b = CHR ''0'' then left ?cur else right ?cur) = Some nxt"
      "nxt = l \<or> nxt = r"
    using "2.prems"(1) by auto
  have step: "decode_loop huffmanTree (Some ?cur) decodedCount totalChars (p @ rest) out =
     (if left nxt = None \<and> right nxt = None
      then if int32 (decodedCount + 1) = totalChars then Inr (out @ [data nxt])
           else decode_loop huffmanTree (Some huffmanTree) (int32 (decodedCount + 1)) totalChars
                  (q @ rest) (out @ [data nxt])
      else decode_loop huffmanTree (Some nxt) decodedCount totalChars (q @ rest) out)"
    unfolding bq(1) append_Cons by (rule decode_loop_step [OF bq(4)])
  show ?case
  proof (cases "q = []")
    case True
    then have "left nxt = None \<and> right nxt = None \<and> data nxt = k"
      using leaf_paths_empty_path [OF bq(3)] bq(2) by simp
    then show ?thesis
      unfolding step using True by simp
  next
    case False
    then have nl: "\<not> (left nxt = None \<and> right nxt = None)"
      using leaf_paths_of_leaf [of nxt k q] bq(2) by blast
    have ih: "decode_loop huffmanTree (Some nxt) decodedCount totalChars (q @ rest) out =
     (if int32 (decodedCount + 1) = totalChars then Inr (out @ [k])
      else decode_loop huffmanTree (Some huffmanTree) (int32 (decodedCount + 1)) totalChars
             rest (out @ [k]))"
      using bq(5) "2.IH"(1) [of q] "2.IH"(2) [of q] bq(2,3) False by blast
    show ?thesis
      unfolding step using nl ih by auto
  qed
next
  case (3 d f r)
  then show ?case by simp
next
  case (4 d f l)
  then show ?case by simp
qed

text \<open>
  The bits of a sequence of symbols, while the count is not reached: the symbols are
  written and counted, and the loop goes on with the bits that follow.
\<close>

lemma decode_loop_symbols:
  assumes "full_tree huffmanTree" "left huffmanTree \<noteq> None"
  shows "\<forall>c \<in> set cs. (c, path c) \<in> set (leaf_paths huffmanTree) \<Longrightarrow>
         \<forall>j. 0 < j \<and> j \<le> int (length cs) \<longrightarrow> int32 (n + j) \<noteq> totalChars \<Longrightarrow>
         decode_loop huffmanTree (Some huffmanTree) (int32 n) totalChars
           (concat (map path cs) @ rest) out =
         decode_loop huffmanTree (Some huffmanTree) (int32 (n + int (length cs))) totalChars
           rest (out @ cs)"
proof (induction cs arbitrary: n out)
  case Nil
  show ?case by simp
next
  case (Cons c cs)
  have mem: "(c, path c) \<in> set (leaf_paths huffmanTree)" using Cons.prems(1) by simp
  have ne: "path c \<noteq> []"
    using leaf_paths_empty_path [OF assms(1), of c] mem assms(2) by auto
  have one: "int32 (int32 n + 1) \<noteq> totalChars"
    using Cons.prems(2) by (simp add: int32_add_left)
  have "decode_loop huffmanTree (Some huffmanTree) (int32 n) totalChars
          (path c @ concat (map path cs) @ rest) out =
        decode_loop huffmanTree (Some huffmanTree) (int32 (n + 1)) totalChars
          (concat (map path cs) @ rest) (out @ [c])"
    using decode_loop_walk [OF assms(1) mem ne, of huffmanTree "int32 n" totalChars] one
    by (simp add: int32_add_left)
  also have "\<dots> = decode_loop huffmanTree (Some huffmanTree) (int32 (n + 1 + int (length cs)))
                     totalChars rest ((out @ [c]) @ cs)"
  proof (rule Cons.IH)
    show "\<forall>c \<in> set cs. (c, path c) \<in> set (leaf_paths huffmanTree)"
      using Cons.prems(1) by simp
    show "\<forall>j. 0 < j \<and> j \<le> int (length cs) \<longrightarrow> int32 (n + 1 + j) \<noteq> totalChars"
    proof (intro allI impI)
      fix j :: int assume "0 < j \<and> j \<le> int (length cs)"
      then have "0 < j + 1 \<and> j + 1 \<le> int (length (c # cs))" by simp
      then have "int32 (n + (j + 1)) \<noteq> totalChars" using Cons.prems(2) by blast
      then show "int32 (n + 1 + j) \<noteq> totalChars" by (simp add: add.commute add.left_commute)
    qed
  qed
  also have "n + 1 + int (length cs) = n + int (length (c # cs))" by simp
  finally show ?case by simp
qed

text \<open>
  The same when the count is reached with the last symbol: the loop stops there, and the
  bits that follow are never looked at.
\<close>

lemma decode_loop_sequence:
  assumes "full_tree huffmanTree" "left huffmanTree \<noteq> None"
    and "\<forall>c \<in> set cs. (c, path c) \<in> set (leaf_paths huffmanTree)"
    and "\<forall>j. 0 < j \<and> j \<le> int (length cs) \<longrightarrow> int32 (n + j) \<noteq> totalChars"
    and "(c, path c) \<in> set (leaf_paths huffmanTree)"
    and "int32 (n + int (length cs) + 1) = totalChars"
  shows "decode_loop huffmanTree (Some huffmanTree) (int32 n) totalChars
           (concat (map path (cs @ [c])) @ rest) out = Inr (out @ cs @ [c])"
proof -
  have ne: "path c \<noteq> []"
    using leaf_paths_empty_path [OF assms(1), of c] assms(5,2) by auto
  have "decode_loop huffmanTree (Some huffmanTree) (int32 n) totalChars
           (concat (map path cs) @ path c @ rest) out =
        decode_loop huffmanTree (Some huffmanTree) (int32 (n + int (length cs))) totalChars
           (path c @ rest) (out @ cs)"
    by (rule decode_loop_symbols [OF assms(1,2,3,4)])
  also have "\<dots> = Inr ((out @ cs) @ [c])"
    using decode_loop_walk [OF assms(1,5) ne, of huffmanTree "int32 (n + int (length cs))" totalChars]
      assms(6)
    by (simp add: int32_add_left)
  finally show ?thesis by simp
qed

text \<open>Bits that end inside a path write nothing.\<close>

lemma decode_loop_incomplete:
  "full_tree cur \<Longrightarrow> (k, tail @ q) \<in> set (leaf_paths cur) \<Longrightarrow> q \<noteq> [] \<Longrightarrow>
   decode_loop huffmanTree (Some cur) decodedCount totalChars tail out = Inr out"
proof (induction cur arbitrary: tail rule: full_tree.induct)
  case (1 d f)
  then show ?case by simp
next
  case (2 d f l r)
  let ?cur = "HuffmanNode d f (Some l) (Some r)"
  show ?case
  proof (cases tail)
    case Nil
    then show ?thesis by simp
  next
    case (Cons b t)
    from "2.prems"(2) obtain nxt where
      nx: "(k, t @ q) \<in> set (leaf_paths nxt)" "full_tree nxt"
        "(if b = CHR ''0'' then left ?cur else right ?cur) = Some nxt" "nxt = l \<or> nxt = r"
      using "2.prems"(1) Cons by auto
    have nl: "\<not> (left nxt = None \<and> right nxt = None)"
      using leaf_paths_of_leaf [of nxt k "t @ q"] nx(1) "2.prems"(3) by auto
    have "decode_loop huffmanTree (Some nxt) decodedCount totalChars t out = Inr out"
      using nx(4) "2.IH"(1) [of t] "2.IH"(2) [of t] nx(1,2) "2.prems"(3) by blast
    then show ?thesis
      unfolding Cons using decode_loop_step [OF nx(3), of huffmanTree decodedCount totalChars t out] nl
      by auto
  qed
next
  case (3 d f r)
  then show ?case by simp
next
  case (4 d f l)
  then show ?case by simp
qed

text \<open>
  Every string of bits is the paths of a sequence of leaves followed by bits that end
  before a leaf is reached.
\<close>

lemma leaf_paths_nonempty: "full_tree t \<Longrightarrow> leaf_paths t \<noteq> []"
  by (induction t rule: full_tree.induct) auto

lemma read_compressed_bits: "list_all is_bit (read_compressed bytes)"
  by (auto simp: read_compressed_def list_all_iff bitset8_to_string_def is_bit_def)

lemma path_or_inside:
  "full_tree t \<Longrightarrow> list_all is_bit bits \<Longrightarrow>
   (\<exists>k p. (k, p) \<in> set (leaf_paths t) \<and> prefix p bits) \<or>
   (\<exists>k q. (k, bits @ q) \<in> set (leaf_paths t) \<and> q \<noteq> [])"
proof (induction t arbitrary: bits rule: full_tree.induct)
  case (1 d f)
  then show ?case by auto
next
  case (2 d f l r)
  let ?t = "HuffmanNode d f (Some l) (Some r)"
  have fl: "full_tree l" and fr: "full_tree r" using "2.prems"(1) by simp_all
  show ?case
  proof (cases bits)
    case Nil
    obtain k p where "(k, p) \<in> set (leaf_paths l)"
      using leaf_paths_nonempty [OF fl] by (cases "leaf_paths l") auto
    then have "(k, [] @ (CHR ''0'' # p)) \<in> set (leaf_paths ?t)" by force
    then show ?thesis unfolding Nil by blast
  next
    case (Cons b bs)
    have bs: "list_all is_bit bs" using "2.prems"(2) Cons by simp
    have b: "b = CHR ''0'' \<or> b = CHR ''1''" using "2.prems"(2) Cons by (simp add: is_bit_def)
    from b show ?thesis
    proof
      assume b0: "b = CHR ''0''"
      from "2.IH"(1) [OF fl bs] show ?thesis
      proof
        assume "\<exists>k p. (k, p) \<in> set (leaf_paths l) \<and> prefix p bs"
        then obtain k p where "(k, p) \<in> set (leaf_paths l)" "prefix p bs" by blast
        then have "(k, CHR ''0'' # p) \<in> set (leaf_paths ?t)" "prefix (CHR ''0'' # p) bits"
          unfolding Cons b0 by (force, simp)
        then show ?thesis by blast
      next
        assume "\<exists>k q. (k, bs @ q) \<in> set (leaf_paths l) \<and> q \<noteq> []"
        then obtain k q where "(k, bs @ q) \<in> set (leaf_paths l)" "q \<noteq> []" by blast
        then have "(k, bits @ q) \<in> set (leaf_paths ?t)"
          unfolding Cons b0 by force
        with \<open>q \<noteq> []\<close> show ?thesis by blast
      qed
    next
      assume b1: "b = CHR ''1''"
      from "2.IH"(2) [OF fr bs] show ?thesis
      proof
        assume "\<exists>k p. (k, p) \<in> set (leaf_paths r) \<and> prefix p bs"
        then obtain k p where "(k, p) \<in> set (leaf_paths r)" "prefix p bs" by blast
        then have "(k, CHR ''1'' # p) \<in> set (leaf_paths ?t)" "prefix (CHR ''1'' # p) bits"
          unfolding Cons b1 by (force, simp)
        then show ?thesis by blast
      next
        assume "\<exists>k q. (k, bs @ q) \<in> set (leaf_paths r) \<and> q \<noteq> []"
        then obtain k q where "(k, bs @ q) \<in> set (leaf_paths r)" "q \<noteq> []" by blast
        then have "(k, bits @ q) \<in> set (leaf_paths ?t)"
          unfolding Cons b1 by force
        with \<open>q \<noteq> []\<close> show ?thesis by blast
      qed
    qed
  qed
qed (simp_all)

lemma payload_splits:
  assumes "full_tree t" "left t \<noteq> None"
  shows "list_all is_bit bits \<Longrightarrow>
         \<exists>ps tail k q. bits = concat (map snd ps) @ tail \<and> set ps \<subseteq> set (leaf_paths t) \<and>
           (k, tail @ q) \<in> set (leaf_paths t) \<and> q \<noteq> []"
proof (induction bits rule: length_induct)
  case (1 bits)
  from path_or_inside [OF assms(1) "1.prems"] show ?case
  proof
    assume "\<exists>k p. (k, p) \<in> set (leaf_paths t) \<and> prefix p bits"
    then obtain k p rest where kp: "(k, p) \<in> set (leaf_paths t)" and bits: "bits = p @ rest"
      by (auto simp: prefix_def)
    have "p \<noteq> []" using leaf_paths_empty_path [OF assms(1), of k] kp assms(2) by auto
    then have "length rest < length bits" using bits by simp
    moreover have "list_all is_bit rest" using "1.prems" bits by simp
    ultimately obtain ps tail k' q where
      "rest = concat (map snd ps) @ tail" "set ps \<subseteq> set (leaf_paths t)"
      "(k', tail @ q) \<in> set (leaf_paths t)" "q \<noteq> []"
      using "1.IH" by blast
    then have "bits = concat (map snd ((k, p) # ps)) @ tail \<and>
               set ((k, p) # ps) \<subseteq> set (leaf_paths t) \<and>
               (k', tail @ q) \<in> set (leaf_paths t) \<and> q \<noteq> []"
      using bits kp by simp
    then show ?thesis by blast
  next
    assume "\<exists>k q. (k, bits @ q) \<in> set (leaf_paths t) \<and> q \<noteq> []"
    then obtain k q where "(k, bits @ q) \<in> set (leaf_paths t)" "q \<noteq> []" by blast
    then have "bits = concat (map snd []) @ bits \<and> set [] \<subseteq> set (leaf_paths t) \<and>
               (k, bits @ q) \<in> set (leaf_paths t) \<and> q \<noteq> []"
      by simp
    then show ?thesis by blast
  qed
qed

subsection \<open>Payload that runs out\<close>

lemma count_total_range:
  "- 2147483648 \<le> count_total freqTable \<and> count_total freqTable \<le> 2147483647"
proof (cases freqTable rule: rev_cases)
  case Nil
  then show ?thesis by (simp add: count_total_def)
next
  case (snoc ys y)
  then show ?thesis using int32_range [of "count_total ys + snd y"] by (simp add: count_total_def)
qed

text \<open>The counter, going up from 0, does not meet the total before \<^const>\<open>stop_count\<close> steps.\<close>

lemma before_stop_count:
  assumes "- 2147483648 \<le> totalChars" "totalChars \<le> 2147483647"
    and "0 < j" "j < stop_count totalChars"
  shows "int32 j \<noteq> totalChars"
proof
  assume eq: "int32 j = totalChars"
  define q where "q = (j + 2147483648) div 4294967296"
  define r where "r = (j + 2147483648) mod 4294967296"
  have "j + 2147483648 = q * 4294967296 + r"
    unfolding q_def r_def by simp
  moreover have "r - 2147483648 = totalChars"
    using eq unfolding int32_def r_def .
  ultimately have j: "j = q * 4294967296 + totalChars" by linarith
  have bound: "j < totalChars \<or> (totalChars \<le> 0 \<and> j < totalChars + 4294967296)"
    using assms(4) by (simp add: stop_count_def split: if_splits)
  have "q \<le> - 1 \<or> q = 0 \<or> 1 \<le> q" by linarith
  then show False
  proof (elim disjE)
    assume "q \<le> - 1"
    with j assms(1,2,3) show False by linarith
  next
    assume "q = 0"
    with j bound assms(3) show False by auto
  next
    assume "1 \<le> q"
    with j bound assms(1,2,3) show False by linarith
  qed
qed

text \<open>After \<^const>\<open>stop_count\<close> steps it does.\<close>

lemma stop_count_meets:
  assumes "- 2147483648 \<le> totalChars" "totalChars \<le> 2147483647"
  shows "0 < stop_count totalChars \<and> int32 (stop_count totalChars) = totalChars"
proof (cases "0 < totalChars")
  case True
  then show ?thesis using assms by (simp add: stop_count_def int32_id)
next
  case False
  have "totalChars + 4294967296 + 2147483648 = totalChars + 2147483648 + 1 * 4294967296" by simp
  then have "(totalChars + 4294967296 + 2147483648) mod 4294967296 =
             (totalChars + 2147483648 + 1 * 4294967296) mod 4294967296"
    by (rule arg_cong)
  also have "\<dots> = (totalChars + 2147483648) mod 4294967296" by (rule mod_mult_self1)
  also have "\<dots> = totalChars + 2147483648" using assms by (intro mod_pos_pos_trivial) linarith+
  finally have "int32 (totalChars + 4294967296) = totalChars" unfolding int32_def by linarith
  then show ?thesis using False assms(1) by (simp add: stop_count_def)
qed

text \<open>
  Claim C8, as amended. The source has no corrupt-stream error. For every artifact whose
  header is read into a table of at least two symbols (be it with reads that failed and
  left a count of zero), decoding signals no error whatever the payload is. When the
  bits are the paths of a sequence of symbols, shorter than the number of symbols at
  which the loop would stop, followed by bits that end before a leaf is reached, then
  the loop ends with the bits, exactly that sequence of symbols is the output file, and
  success is reported.
\<close>

theorem C8_exhausted_payload_is_success:
  assumes "read_header file = Inr (freqTable, inFile)" and "2 \<le> length freqTable"
  shows "\<exists>huffmanTree. buildHuffmanTree freqTable = Inr huffmanTree \<and>
           (\<exists>out. decompressFile (Some file) = Inr out) \<and>
           (\<forall>cs path tail.
              read_compressed (get_all inFile) = concat (map path cs) @ tail \<and>
              (\<forall>c \<in> set cs. (c, path c) \<in> set (leaf_paths huffmanTree)) \<and>
              (\<exists>k q. (k, tail @ q) \<in> set (leaf_paths huffmanTree) \<and> q \<noteq> []) \<and>
              int (length cs) < stop_count (count_total freqTable) \<longrightarrow>
              decompressFile (Some file) = Inr cs)"
proof -
  from assms have "freqTable \<noteq> []" "length freqTable > 1" by auto
  then obtain t where t: "buildHuffmanTree freqTable = Inr t" "full_tree t" "left t \<noteq> None"
    using buildHuffmanTree_props [of freqTable] by blast
  let ?total = "count_total freqTable"
  let ?bits = "read_compressed (get_all inFile)"
  have zero: "int32 0 = 0" by (simp add: int32_def)
  have dec: "decompressFile (Some file) = decode_loop t (Some t) (int32 0) ?total ?bits []"
    using assms(1) t(1) by (simp add: decompressFile_def Let_def zero)
  obtain out where "decode_loop t (Some t) (int32 0) ?total ?bits [] = Inr out"
    using decode_loop_no_null [OF t(2,3) t(2,3)] by blast
  then have ex: "\<exists>out. decompressFile (Some file) = Inr out" using dec by simp
  have pin: "decompressFile (Some file) = Inr cs"
    if bits: "?bits = concat (map path cs) @ tail"
      and paths: "\<forall>c \<in> set cs. (c, path c) \<in> set (leaf_paths t)"
      and tail: "(k, tail @ q) \<in> set (leaf_paths t)" "q \<noteq> []"
      and len: "int (length cs) < stop_count ?total"
    for cs path tail k q
  proof -
    have nostop: "\<forall>j. 0 < j \<and> j \<le> int (length cs) \<longrightarrow> int32 (0 + j) \<noteq> ?total"
    proof (intro allI impI)
      fix j :: int
      assume "0 < j \<and> j \<le> int (length cs)"
      then have "0 < j" "j < stop_count ?total" using len by auto
      then have "int32 j \<noteq> ?total"
        using before_stop_count [of ?total j] count_total_range [of freqTable] by blast
      then show "int32 (0 + j) \<noteq> ?total" by simp
    qed
    have "decode_loop t (Some t) (int32 0) ?total (concat (map path cs) @ tail) [] =
          decode_loop t (Some t) (int32 (0 + int (length cs))) ?total tail ([] @ cs)"
      using paths nostop by (rule decode_loop_symbols [OF t(2,3)])
    also have "\<dots> = Inr ([] @ cs)"
      using t(2) tail by (rule decode_loop_incomplete)
    finally show ?thesis using dec bits by simp
  qed
  show ?thesis using t(1) ex pin by blast
qed

text \<open>
  An artifact that declares nine symbols and holds the bits of eight: the eight are
  the output.
\<close>

theorem C8_exhausted_payload_is_success_witness:
  "read_header (''2\<newline>120 5\<newline>121 4\<newline>'' @ [CHR 0x02]) =
     Inr ([(CHR ''x'', 5), (CHR ''y'', 4)], Some [CHR 0x02]) \<and>
   2 \<le> length [(CHR ''x'', 5 :: int), (CHR ''y'', 4)] \<and>
   read_compressed (get_all (Some [CHR 0x02])) =
     concat (map (\<lambda>c. if c = CHR ''x'' then ''1'' else ''0'') ''yyyyyyxy'') @ [] \<and>
   int (length ''yyyyyyxy'') < stop_count (count_total [(CHR ''x'', 5), (CHR ''y'', 4)]) \<and>
   decompressFile (Some (''2\<newline>120 5\<newline>121 4\<newline>'' @ [CHR 0x02])) = Inr ''yyyyyyxy''"
proof -
  let ?file = "''2\<newline>120 5\<newline>121 4\<newline>'' @ [CHR 0x02]"
  let ?path = "\<lambda>c. if c = CHR ''x'' then ''1'' else ''0''"
  let ?tree = "HuffmanNode (CHR 0x00) 9 (Some (HuffmanNode (CHR ''y'') 4 None None))
                 (Some (HuffmanNode (CHR ''x'') 5 None None))"
  have h1: "read_header ?file = Inr ([(CHR ''x'', 5), (CHR ''y'', 4)], Some [CHR 0x02])"
    by code_simp
  have h2: "2 \<le> length [(CHR ''x'', 5 :: int), (CHR ''y'', 4)]" by simp
  have h3: "read_compressed (get_all (Some [CHR 0x02])) = concat (map ?path ''yyyyyyxy'') @ []"
    by code_simp
  have h4: "int (length ''yyyyyyxy'') < stop_count (count_total [(CHR ''x'', 5), (CHR ''y'', 4)])"
    by code_simp
  have tree: "buildHuffmanTree [(CHR ''x'', 5), (CHR ''y'', 4)] = Inr ?tree"
    by code_simp
  have paths: "leaf_paths ?tree = [(CHR ''y'', ''0''), (CHR ''x'', ''1'')]"
    by simp
  from C8_exhausted_payload_is_success [OF h1 h2] tree
  have "\<forall>cs path tail.
          read_compressed (get_all (Some [CHR 0x02])) = concat (map path cs) @ tail \<and>
          (\<forall>c \<in> set cs. (c, path c) \<in> set (leaf_paths ?tree)) \<and>
          (\<exists>k q. (k, tail @ q) \<in> set (leaf_paths ?tree) \<and> q \<noteq> []) \<and>
          int (length cs) < stop_count (count_total [(CHR ''x'', 5), (CHR ''y'', 4)]) \<longrightarrow>
          decompressFile (Some ?file) = Inr cs"
    by auto
  then have step: "read_compressed (get_all (Some [CHR 0x02])) = concat (map ?path ''yyyyyyxy'') @ [] \<and>
          (\<forall>c \<in> set ''yyyyyyxy''. (c, ?path c) \<in> set (leaf_paths ?tree)) \<and>
          (\<exists>k q. (k, [] @ q) \<in> set (leaf_paths ?tree) \<and> q \<noteq> []) \<and>
          int (length ''yyyyyyxy'') < stop_count (count_total [(CHR ''x'', 5), (CHR ''y'', 4)]) \<longrightarrow>
          decompressFile (Some ?file) = Inr ''yyyyyyxy''"
    by blast
  have a: "\<forall>c \<in> set ''yyyyyyxy''. (c, ?path c) \<in> set (leaf_paths ?tree)"
    unfolding paths by simp
  have b: "\<exists>k q. (k, [] @ q) \<in> set (leaf_paths ?tree) \<and> q \<noteq> []"
    unfolding paths by (intro exI [of _ "CHR ''y''"] exI [of _ "''0''"]) simp
  have h5: "decompressFile (Some ?file) = Inr ''yyyyyyxy''"
    using step h3 a b h4 by blast
  show ?thesis by (intro conjI h1 h2 h3 h4 h5)
qed

text \<open>
  Claim C8 as stated fails: this artifact declares eleven symbols and its payload holds
  the bits of eight. Decoding reports success and writes the eight symbols.
\<close>

theorem C8_counterexample:
  "read_header (''2\<newline>97 5\<newline>98 6\<newline>'' @ [CHR 0x00]) =
     Inr ([(CHR ''a'', 5), (CHR ''b'', 6)], Some [CHR 0x00]) \<and>
   count_total [(CHR ''a'', 5), (CHR ''b'', 6)] = 11 \<and>
   decompressFile (Some (''2\<newline>97 5\<newline>98 6\<newline>'' @ [CHR 0x00])) = Inr ''aaaaaaaa''"
  by code_simp

text \<open>
  The same for headers whose reads fail or whose counts do not fit: a count that is not
  a number is read as zero, the reads after it store nothing and the table is used as
  it stands, and the sum of the counts wraps around.
\<close>

lemma failed_header_is_success:
  "read_header ''2\<newline>97 5\<newline>98 x\<newline>'' = Inr ([(CHR ''a'', 5), (CHR ''b'', 0)], None) \<and>
   decompressFile (Some ''2\<newline>97 5\<newline>98 x\<newline>'') = Inr [] \<and>
   read_header ''3\<newline>97 5\<newline>98 x\<newline>'' = Inr ([(CHR ''a'', 5), (CHR ''b'', 0)], None) \<and>
   decompressFile (Some ''3\<newline>97 5\<newline>98 x\<newline>'') = Inr []"
  by code_simp

lemma wrapped_total_is_success:
  "count_total [(CHR ''a'', 2147483647), (CHR ''b'', 2147483647), (CHR ''c'', 4)] = 2 \<and>
   decompressFile (Some (''3\<newline>97 2147483647\<newline>98 2147483647\<newline>99 4\<newline>'' @ [CHR 0x00])) = Inr ''cc''"
  by code_simp

text \<open>
  The payload of every such artifact is of that form: the paths of a sequence of symbols
  and bits that end before a leaf is reached.
\<close>

lemma payload_is_symbols_and_rest:
  assumes "read_header file = Inr (freqTable, inFile)" "2 \<le> length freqTable"
    and "buildHuffmanTree freqTable = Inr huffmanTree"
  shows "\<exists>cs path tail k q.
           read_compressed (get_all inFile) = concat (map path cs) @ tail \<and>
           (\<forall>c \<in> set cs. (c, path c) \<in> set (leaf_paths huffmanTree)) \<and>
           (k, tail @ q) \<in> set (leaf_paths huffmanTree) \<and> q \<noteq> []"
proof -
  from assms(2) have "freqTable \<noteq> []" "length freqTable > 1" by auto
  then have shape: "full_tree huffmanTree" "mset (tree_leaves huffmanTree) = mset freqTable"
    "left huffmanTree \<noteq> None"
    using buildHuffmanTree_props [of freqTable] assms(3) by auto
  have "distinct (map fst freqTable)"
    using read_header_sorted [OF assms(1)] by (rule key_sorted_distinct)
  moreover have "mset (map fst (leaf_paths huffmanTree)) = mset (map fst freqTable)"
    using arg_cong [OF shape(2), of "image_mset fst"] by (simp add: leaf_paths_keys [OF shape(1)])
  ultimately have dist: "distinct (map fst (leaf_paths huffmanTree))"
    by (metis mset_eq_imp_distinct_iff)
  define path where "path c = the (map_of (leaf_paths huffmanTree) c)" for c
  have path: "path (fst p) = snd p" if "p \<in> set (leaf_paths huffmanTree)" for p
    using map_of_is_SomeI [OF dist, of "fst p" "snd p"] that by (simp add: path_def)
  obtain ps tail k q where ps: "read_compressed (get_all inFile) = concat (map snd ps) @ tail"
    "set ps \<subseteq> set (leaf_paths huffmanTree)" "(k, tail @ q) \<in> set (leaf_paths huffmanTree)" "q \<noteq> []"
    using payload_splits [OF shape(1,3) read_compressed_bits] by blast
  have "snd p = path (fst p)" if "p \<in> set ps" for p
    using path [of p] ps(2) that by auto
  then have eq: "map snd ps = map (path \<circ> fst) ps"
    by (intro map_cong) simp_all
  have "read_compressed (get_all inFile) = concat (map path (map fst ps)) @ tail"
    unfolding ps(1) map_map eq by (rule refl)
  moreover have "\<forall>c \<in> set (map fst ps). (c, path c) \<in> set (leaf_paths huffmanTree)"
  proof
    fix c assume "c \<in> set (map fst ps)"
    then obtain p where p: "p \<in> set ps" "c = fst p" by auto
    then have mem: "p \<in> set (leaf_paths huffmanTree)" using ps(2) by blast
    have "path c = snd p" using path [OF mem] p(2) by simp
    then have "p = (c, path c)" using p(2) by (simp add: prod_eq_iff)
    with mem show "(c, path c) \<in> set (leaf_paths huffmanTree)" by simp
  qed
  ultimately show ?thesis using ps(3,4) by blast
qed

text \<open>
  When the sequence is not shorter than the number of symbols at which the loop stops,
  the output is its first symbols, as many as that number.
\<close>

lemma decoder_stops_at_stop_count:
  assumes "read_header file = Inr (freqTable, inFile)" and "2 \<le> length freqTable"
    and "buildHuffmanTree freqTable = Inr huffmanTree"
    and "read_compressed (get_all inFile) = concat (map path cs) @ tail"
    and "\<forall>c \<in> set cs. (c, path c) \<in> set (leaf_paths huffmanTree)"
    and "stop_count (count_total freqTable) \<le> int (length cs)"
  shows "decompressFile (Some file) = Inr (take (nat (stop_count (count_total freqTable))) cs)"
proof -
  let ?total = "count_total freqTable"
  define n where "n = nat (stop_count ?total)"
  from assms(2) have "freqTable \<noteq> []" "length freqTable > 1" by auto
  then have shape: "full_tree huffmanTree" "left huffmanTree \<noteq> None"
    using buildHuffmanTree_props [of freqTable] assms(3) by auto
  have meets: "0 < stop_count ?total" "int32 (stop_count ?total) = ?total"
    using stop_count_meets [of ?total] count_total_range [of freqTable] by blast+
  then have n: "0 < n" "n \<le> length cs" "int n = stop_count ?total"
    using assms(6) by (simp_all add: n_def)
  define pre where "pre = butlast (take n cs)"
  define c where "c = last (take n cs)"
  have "take n cs \<noteq> []" using n(1,2) by auto
  then have tk: "take n cs = pre @ [c]" unfolding pre_def c_def by simp
  have len: "length pre = n - 1" using n(2) by (simp add: pre_def)
  have cs: "cs = (pre @ [c]) @ drop n cs" using tk append_take_drop_id [of n cs] by simp
  have mem: "set (pre @ [c]) \<subseteq> set cs" unfolding tk [symmetric] by (rule set_take_subset)
  have zero: "int32 0 = 0" by (simp add: int32_def)
  have nostop: "\<forall>j. 0 < j \<and> j \<le> int (length pre) \<longrightarrow> int32 (0 + j) \<noteq> ?total"
  proof (intro allI impI)
    fix j :: int
    assume "0 < j \<and> j \<le> int (length pre)"
    then have "0 < j" "j < stop_count ?total" using len n(1,3) by auto
    then have "int32 j \<noteq> ?total"
      using before_stop_count [of ?total j] count_total_range [of freqTable] by blast
    then show "int32 (0 + j) \<noteq> ?total" by simp
  qed
  have "0 + int (length pre) + 1 = stop_count ?total" using len n(1,3) by simp
  then have stop: "int32 (0 + int (length pre) + 1) = ?total" using meets(2) by simp
  have "concat (map path cs) @ tail =
        concat (map path (pre @ [c])) @ (concat (map path (drop n cs)) @ tail)"
    by (subst cs) simp
  then have bits: "read_compressed (get_all inFile) =
        concat (map path (pre @ [c])) @ (concat (map path (drop n cs)) @ tail)"
    using assms(4) by simp
  have "decode_loop huffmanTree (Some huffmanTree) (int32 0) ?total
          (concat (map path (pre @ [c])) @ (concat (map path (drop n cs)) @ tail)) [] =
        Inr ([] @ pre @ [c])"
    using shape _ nostop _ stop
  proof (rule decode_loop_sequence)
    show "\<forall>c \<in> set pre. (c, path c) \<in> set (leaf_paths huffmanTree)"
      using mem assms(5) by auto
    show "(c, path c) \<in> set (leaf_paths huffmanTree)"
      using mem assms(5) by auto
  qed
  then have "decompressFile (Some file) = Inr (pre @ [c])"
    using assms(1,3) by (simp add: decompressFile_def Let_def bits zero)
  then show ?thesis unfolding tk [symmetric] n_def .
qed

text \<open>
  On the other artifacts the source reads a variable in which nothing was stored, calls
  \<^verbatim>\<open>top()\<close> on an empty queue, or follows a null pointer: \<^verbatim>\<open>decompressFile\<close> ends in no
  other error.
\<close>

lemma read_table_errors:
  "read_table n inFile charValue f freqTable = Inl e \<Longrightarrow> e = UninitializedRead"
proof (induction n arbitrary: inFile charValue f freqTable)
  case 0
  then show ?case by simp
next
  case (Suc n)
  then show ?case
    by (auto simp: Let_def split: prod.splits option.splits)
qed

lemma read_header_errors: "read_header file = Inl e \<Longrightarrow> e = UninitializedRead"
  by (auto simp: read_header_def Let_def split: prod.splits option.splits dest: read_table_errors)

lemma buildHuffmanTree_errors: "buildHuffmanTree freqTable = Inl e \<Longrightarrow> e = EmptyQueueTop"
  by (auto simp: buildHuffmanTree_def pq_top_def Let_def split: list.splits if_splits)

lemma decode_loop_errors:
  "decode_loop huffmanTree current decodedCount totalChars encoded out = Inl e \<Longrightarrow>
   e = NullDereference"
proof (induction huffmanTree current decodedCount totalChars encoded out rule: decode_loop.induct)
  case (1 huffmanTree current decodedCount totalChars out)
  then show ?case by simp
next
  case (2 huffmanTree current decodedCount totalChars b encoded out)
  show ?case
  proof (cases current)
    case None
    with "2.prems" show ?thesis by simp
  next
    case (Some cur)
    show ?thesis
    proof (cases "if b = CHR ''0'' then left cur else right cur")
      case None
      with Some "2.prems" show ?thesis by simp
    next
      case nxt: (Some n)
      show ?thesis
      proof (cases "left n = None \<and> right n = None")
        case leaf: True
        show ?thesis
        proof (cases "int32 (decodedCount + 1) = totalChars")
          case True
          with leaf nxt Some "2.prems" show ?thesis by simp
        next
          case False
          with "2.IH"(1) [OF Some nxt leaf False] "2.prems" Some nxt leaf show ?thesis by simp
        qed
      next
        case False
        with "2.IH"(2) [OF Some nxt False] "2.prems" Some nxt show ?thesis by simp
      qed
    qed
  qed
qed

lemma decompressFile_errors:
  assumes "decompressFile (Some file) = Inl e"
  shows "e = UninitializedRead \<or> e = EmptyQueueTop \<or> e = NullDereference"
proof (cases "read_header file")
  case (Inl a)
  then show ?thesis using assms read_header_errors [of "file" a] by (simp add: decompressFile_def)
next
  case (Inr r)
  obtain freqTable inFile where r: "r = (freqTable, inFile)" by (cases r)
  show ?thesis
  proof (cases "buildHuffmanTree freqTable")
    case (Inl a)
    then show ?thesis
      using assms Inr r buildHuffmanTree_errors [of freqTable a] by (simp add: decompressFile_def Let_def)
  next
    case t: (Inr huffmanTree)
    then show ?thesis
      using assms Inr r decode_loop_errors [of huffmanTree "Some huffmanTree" 0 "count_total freqTable"
          "read_compressed (get_all inFile)" "[]" e]
      by (simp add: decompressFile_def Let_def)
  qed
qed

subsection \<open>The round trip where it holds\<close>

lemma member_le_sum_list_int:
  "\<forall>x \<in> set xs. (0::int) \<le> x \<Longrightarrow> x \<in> set xs \<Longrightarrow> x \<le> sum_list xs"
proof (induction xs)
  case Nil
  then show ?case by simp
next
  case (Cons a xs)
  have "0 \<le> sum_list xs" using Cons.prems(1) by (simp add: sum_list_nonneg)
  with Cons show ?case by auto
qed

text \<open>Without overflow the total is the sum of the counts.\<close>

lemma foldl_count_total:
  "0 \<le> a \<Longrightarrow> \<forall>p \<in> set freqTable. 0 \<le> snd p \<Longrightarrow>
   a + sum_list (map snd freqTable) \<le> 2147483647 \<Longrightarrow>
   foldl (\<lambda>totalChars pair. int32 (totalChars + snd pair)) a freqTable =
     a + sum_list (map snd freqTable)"
proof (induction freqTable arbitrary: a)
  case Nil
  show ?case by simp
next
  case (Cons p ps)
  have nn: "0 \<le> sum_list (map snd ps)" using Cons.prems(2) by (intro sum_list_nonneg) auto
  have p: "0 \<le> snd p" using Cons.prems(2) by simp
  have le: "a + snd p + sum_list (map snd ps) \<le> 2147483647" using Cons.prems(3) by simp
  have "int32 (a + snd p) = a + snd p"
    using Cons.prems(1) p nn le by (intro int32_id) linarith+
  moreover have "foldl (\<lambda>totalChars pair. int32 (totalChars + snd pair)) (a + snd p) ps =
                 a + snd p + sum_list (map snd ps)"
    using Cons.prems(1,2) p le by (intro Cons.IH) auto
  ultimately show ?case by simp
qed

lemma count_total_sum:
  assumes "\<forall>p \<in> set freqTable. 0 \<le> snd p" "sum_list (map snd freqTable) \<le> 2147483647"
  shows "count_total freqTable = sum_list (map snd freqTable)"
  using foldl_count_total [of 0 freqTable] assms by (simp add: count_total_def)

text \<open>
  For every input with at least two distinct bytes, none of them 0x00, and fewer than
  \<open>2\<^sup>3\<^sup>1\<close> bytes, decompressing what \<^verbatim>\<open>compressFile\<close> wrote gives the input back.
\<close>

lemma round_trip:
  assumes "2 \<le> card (set content)" "CHR 0x00 \<notin> set content" "int (length content) \<le> 2147483647"
  shows "\<exists>artifact. compressFile (Some content) = Inr artifact \<and>
           decompressFile (Some artifact) = Inr content"
proof -
  let ?ft = "buildFrequencyTable content"
  have ne: "content \<noteq> []" using assms(1) by auto
  have sorted: "key_sorted ?ft" and ft_keys: "fst ` set ?ft = set content"
    by (rule buildFrequencyTable_keys)+
  have pos: "\<forall>p \<in> set ?ft. 0 < snd p" and total: "sum_list (map snd ?ft) = int (length content)"
    using buildFrequencyTable_counts [OF assms(3)] by blast+
  obtain t payload padding where t: "buildHuffmanTree ?ft = Inr t"
    and cf: "compressFile (Some content) = Inr (write_header ?ft @ payload)"
    and rc: "read_compressed payload =
             add_padding (encode_loop content (generateHuffmanCodes (Some t) [] Map.empty) [])"
    and pad: "add_padding (encode_loop content (generateHuffmanCodes (Some t) [] Map.empty) []) =
              encode_loop content (generateHuffmanCodes (Some t) [] Map.empty) [] @ replicate padding (CHR ''0'')"
    using compressFile_payload [OF ne] unfolding Let_def by blast
  have len: "2 \<le> length ?ft"
    using assms(1) buildFrequencyTable_length [of content] by simp
  then have "?ft \<noteq> []" by auto
  then have shape: "full_tree t" "internal_marked t" "mset (tree_leaves t) = mset ?ft" "left t \<noteq> None"
    using buildHuffmanTree_props [of ?ft] t len by auto
  have dist_ft: "distinct (map fst ?ft)"
    using sorted by (rule key_sorted_distinct)
  have "mset (map fst (leaf_paths t)) = mset (map fst ?ft)"
    using arg_cong [OF shape(3), of "image_mset fst"] by (simp add: leaf_paths_keys [OF shape(1)])
  then have dist: "distinct (map fst (leaf_paths t))" and keys: "fst ` set (leaf_paths t) = set content"
    using dist_ft ft_keys
    by (metis mset_eq_imp_distinct_iff, metis mset_eq_setD set_map)
  define path where "path c = the (map_of (leaf_paths t) c)" for c
  have path: "(c, path c) \<in> set (leaf_paths t)" if "c \<in> set content" for c
  proof -
    from that keys obtain p where "map_of (leaf_paths t) c = Some p"
      by (metis weak_map_of_SomeI imageE prod.collapse)
    then show ?thesis by (simp add: path_def map_of_SomeD)
  qed
  let ?codes = "generateHuffmanCodes (Some t) [] Map.empty"
  have "code_of ?codes c = path c" if "c \<in> set content" for c
  proof -
    have "c \<noteq> CHR 0x00" using that assms(2) by auto
    then have "?codes c = Some (path c)"
      using generated_code_is_path [OF shape(1,2) dist path [OF that]] by simp
    then show ?thesis by (simp add: code_of_simps)
  qed
  then have enc: "encode_loop content ?codes [] = concat (map path content)"
    by (simp add: encode_loop_concat cong: map_cong)
  have split: "content = butlast content @ [last content]" using ne by simp
  have zero: "int32 0 = 0" by (simp add: int32_def)
  have nostop: "\<forall>j. 0 < j \<and> j \<le> int (length (butlast content)) \<longrightarrow>
                  int32 (0 + j) \<noteq> int (length content)"
  proof (intro allI impI)
    fix j :: int
    assume j: "0 < j \<and> j \<le> int (length (butlast content))"
    then have "j < int (length content)" using ne by (cases content rule: rev_cases) auto
    moreover from this have "int32 j = j" using j assms(3) by (intro int32_id) linarith+
    ultimately show "int32 (0 + j) \<noteq> int (length content)" by simp
  qed
  have "int (length (butlast content)) + 1 = int (length content)"
    using ne by (cases content rule: rev_cases) auto
  then have stop: "int32 (0 + int (length (butlast content)) + 1) = int (length content)"
    using assms(3) by (simp add: int32_id)
  have "decode_loop t (Some t) (int32 0) (int (length content))
          (concat (map path (butlast content @ [last content])) @ replicate padding (CHR ''0'')) [] =
        Inr ([] @ butlast content @ [last content])"
    using shape(1,4) _ nostop _ stop
  proof (rule decode_loop_sequence)
    show "\<forall>c \<in> set (butlast content). (c, path c) \<in> set (leaf_paths t)"
      using path by (auto dest: in_set_butlastD)
    show "(last content, path (last content)) \<in> set (leaf_paths t)"
      using path ne by simp
  qed
  then have dec: "decode_loop t (Some t) 0 (int (length content))
               (concat (map path content) @ replicate padding (CHR ''0'')) [] = Inr content"
    unfolding zero using split by simp
  have range: "\<forall>p \<in> set ?ft. - 2147483648 \<le> snd p \<and> snd p \<le> 2147483647"
  proof
    fix p assume p: "p \<in> set ?ft"
    have "\<forall>x \<in> set (map snd ?ft). 0 \<le> x"
      using pos by auto
    then have "snd p \<le> sum_list (map snd ?ft)"
      using member_le_sum_list_int [of "map snd ?ft" "snd p"] p by simp
    moreover have "0 < snd p" using pos p by blast
    ultimately show "- 2147483648 \<le> snd p \<and> snd p \<le> 2147483647"
      using total assms(3) by simp
  qed
  have "length ?ft = card (set content)"
    using distinct_card [OF dist_ft] ft_keys by simp
  then have "int (length ?ft) \<le> 2147483647"
    using card_length [of content] assms(3) by simp
  then have rh: "read_header (write_header ?ft @ payload) = Inr (?ft, Some payload)"
    using read_header_write_header [OF sorted range] by simp
  have ct: "count_total ?ft = int (length content)"
    using count_total_sum [of ?ft] pos total assms(3) by (simp add: less_imp_le)
  have "read_compressed payload = encode_loop content ?codes [] @ replicate padding (CHR ''0'')"
    using rc pad by (rule trans)
  then have bits: "read_compressed payload = concat (map path content) @ replicate padding (CHR ''0'')"
    unfolding enc .
  have "decompressFile (Some (write_header ?ft @ payload)) = Inr content"
    using rh t dec by (simp add: decompressFile_def Let_def get_all_def bits ct)
  with cf show ?thesis by blast
qed

text \<open>
  The decoder on a tree with two or more leaves: once the bits of as many symbols as the
  count says are walked, the symbols are the output, whatever bits follow.
\<close>

lemma decoder_stops_at_count:
  assumes "2 \<le> length freqTable" "buildHuffmanTree freqTable = Inr huffmanTree"
    and "\<forall>c \<in> set cs. (c, path c) \<in> set (leaf_paths huffmanTree)" "cs \<noteq> []"
    and "int (length cs) \<le> 2147483647"
  shows "decode_loop huffmanTree (Some huffmanTree) 0 (int (length cs))
           (concat (map path cs) @ rest) [] = Inr cs"
proof -
  from assms(1) have "freqTable \<noteq> []" "length freqTable > 1" by auto
  then have shape: "full_tree huffmanTree" "left huffmanTree \<noteq> None"
    using buildHuffmanTree_props [of freqTable] assms(2) by auto
  have split: "cs = butlast cs @ [last cs]" using assms(4) by simp
  have zero: "int32 0 = 0" by (simp add: int32_def)
  have nostop: "\<forall>j. 0 < j \<and> j \<le> int (length (butlast cs)) \<longrightarrow> int32 (0 + j) \<noteq> int (length cs)"
  proof (intro allI impI)
    fix j :: int
    assume j: "0 < j \<and> j \<le> int (length (butlast cs))"
    then have "j < int (length cs)" using assms(4) by (cases cs rule: rev_cases) auto
    moreover from this have "int32 j = j" using j assms(5) by (intro int32_id) linarith+
    ultimately show "int32 (0 + j) \<noteq> int (length cs)" by simp
  qed
  have "int (length (butlast cs)) + 1 = int (length cs)"
    using assms(4) by (cases cs rule: rev_cases) auto
  then have stop: "int32 (0 + int (length (butlast cs)) + 1) = int (length cs)"
    using assms(5) by (simp add: int32_id)
  have "decode_loop huffmanTree (Some huffmanTree) (int32 0) (int (length cs))
          (concat (map path (butlast cs @ [last cs])) @ rest) [] =
        Inr ([] @ butlast cs @ [last cs])"
    using shape _ nostop _ stop
  proof (rule decode_loop_sequence)
    show "\<forall>c \<in> set (butlast cs). (c, path c) \<in> set (leaf_paths huffmanTree)"
      using assms(3) by (auto dest: in_set_butlastD)
    show "(last cs, path (last cs)) \<in> set (leaf_paths huffmanTree)"
      using assms(3,4) by simp
  qed
  then show ?thesis unfolding zero using split by simp
qed

text \<open>
  Every single-symbol input is lost: the artifact is the header alone and decodes to the
  empty file.
\<close>

lemma single_symbol_lost:
  assumes "0 < n" "int n \<le> 2147483647"
  shows "compressFile (Some (replicate n c)) = Inr (write_header [(c, int n)]) \<and>
         decompressFile (Some (write_header [(c, int n)])) = Inr []"
proof -
  obtain m where n: "n = Suc m" using assms(1) by (cases n) auto
  have "int32 (1 + int m) = int n" using assms(2) n by (simp add: int32_id)
  then have ft: "buildFrequencyTable (replicate n c) = [(c, int n)]"
    using buildFrequencyTable_replicate [of m c] n by simp
  have tree: "buildHuffmanTree [(c, int n)] = Inr (HuffmanNode c (int n) None None)"
    by (simp add: buildHuffmanTree_def leaves_heap_def pq_push_def push_heap_def pq_top_def
          push_heap_value.simps [of _ 0] buildHuffmanTree_loop.simps [of "[_]"])
  have "code_of (generateHuffmanCodes (Some (HuffmanNode c (int n) None None)) [] Map.empty) c = []"
    by (simp add: code_of_def subscript_def)
  then have enc: "encode_loop (replicate n c)
      (generateHuffmanCodes (Some (HuffmanNode c (int n) None None)) [] Map.empty) [] = []"
    by (simp add: encode_loop_concat)
  have wc: "write_compressed [] 0 [] = Inr []"
    by (subst write_compressed.simps) simp
  have c1: "compressFile (Some (replicate n c)) = Inr (write_header [(c, int n)])"
    using assms(1)
    by (simp add: compressFile_def ft tree enc add_padding_def wc Let_def del: generateHuffmanCodes.simps)
  have rh: "read_header (write_header [(c, int n)] @ []) = Inr ([(c, int n)], Some [])"
    using read_header_write_header [of "[(c, int n)]" "[]"] assms(2) by (simp add: key_sorted_def)
  have "decompressFile (Some (write_header [(c, int n)])) = Inr []"
    using rh by (simp add: decompressFile_def tree read_compressed_def get_all_def)
  with c1 show ?thesis by simp
qed

end
